theory Spec2Isabelle
  imports Main "HOL-Library.Word" "HOL-Library.Sublist"
begin

unbundle bit_operations_syntax

section \<open>The matcher of \<^verbatim>\<open>ac_ks.go\<close> as HOL functions\<close>

text \<open>
  Bytes are 8-bit words. Go's \<^verbatim>\<open>int\<close> and \<^verbatim>\<open>uint\<close> values (state numbers, table
  indices, pattern ids, lengths) are natural numbers: they are never negative in this
  code, except the window start \<^verbatim>\<open>i-pat.strlen+1\<close>, which is computed in \<open>int\<close>.
  The conversion \<^verbatim>\<open>int32(nextState)\<close> is taken as exact (fewer than \<open>2^31\<close> states),
  while \<^verbatim>\<open>uint8(ac.alphabetSize)\<close> is written with its wrap-around and shown below
  never to wrap. An indexing that panics in Go is a branch of the model.
\<close>

type_synonym byte = "8 word"

type_synonym error = string

definition Caseless :: nat where
  "Caseless = 1"

definition SingleMatch :: nat where
  "SingleMatch = 2"

record Pattern =
  Content :: "byte list"
  ID :: nat
  Flags :: nat
  strlen :: nat

record ACKS =
  patterns :: "Pattern list"
  translateTable :: "byte \<Rightarrow> byte"
  alphabetSize :: nat
  stateTable :: "nat list"
  outputTable :: "nat list list"
  size_ac :: nat
  maxID :: nat
  stateCount :: nat
  hasSingleMatch :: bool

datatype panic = IndexOutOfRange | SliceBoundsOutOfRange | NilMapAssignment

datatype 'a outcome = Panicked panic | Returned 'a

text \<open>Reading and writing a slice element; \<open>None\<close> is Go's index-out-of-range panic.\<close>

definition index :: "'a list \<Rightarrow> nat \<Rightarrow> 'a option" where
  "index xs i = (if i < length xs then Some (xs ! i) else None)"

definition assign :: "'a list \<Rightarrow> nat \<Rightarrow> 'a \<Rightarrow> 'a list option" where
  "assign xs i v = (if i < length xs then Some (xs[i := v]) else None)"

definition toLower :: "byte \<Rightarrow> byte" where
  "toLower b = (if b \<ge> 65 \<and> b \<le> 90 then b + 32 else b)"

definition NewACKS :: ACKS where
  "NewACKS = \<lparr>patterns = [], translateTable = (\<lambda>_. 0), alphabetSize = 0, stateTable = [],
     outputTable = [], size_ac = 0, maxID = 0, stateCount = 0, hasSingleMatch = False\<rparr>"

definition AddPattern :: "ACKS \<Rightarrow> Pattern \<Rightarrow> error option \<times> ACKS" where
  "AddPattern ac p0 =
     (let p = p0\<lparr>strlen := length (Content p0)\<rparr>;
          ac1 = ac\<lparr>patterns := patterns ac @ [p]\<rparr>;
          ac2 = (if Flags p AND SingleMatch > 0 then ac1\<lparr>hasSingleMatch := True\<rparr> else ac1);
          ac3 = ac2\<lparr>size_ac := length (patterns ac2)\<rparr>;
          ac4 = (if ID p > maxID ac3 then ac3\<lparr>maxID := ID p\<rparr> else ac3)
      in (None, ac4))"

subsection \<open>Alphabet compression\<close>

definition count_byte :: "byte \<Rightarrow> (byte \<Rightarrow> nat) \<Rightarrow> (byte \<Rightarrow> nat)" where
  "count_byte b counts = counts(toLower b := counts (toLower b) + 1)"

definition count_bytes :: "Pattern list \<Rightarrow> byte \<Rightarrow> nat" where
  "count_bytes ps = fold (\<lambda>p. fold count_byte (Content p)) ps (\<lambda>_. 0)"

definition assign_symbol :: "(byte \<Rightarrow> nat) \<Rightarrow> nat \<Rightarrow> (byte \<Rightarrow> byte) \<times> nat \<Rightarrow> (byte \<Rightarrow> byte) \<times> nat" where
  "assign_symbol counts i st =
     (case st of (tt, asz) \<Rightarrow>
        if i \<ge> 65 \<and> i \<le> 90 then (tt, asz)
        else if counts (of_nat i) > 0 then (tt(of_nat i := of_nat asz), asz + 1)
        else (tt(of_nat i := 0), asz))"

definition map_upper :: "nat \<Rightarrow> (byte \<Rightarrow> byte) \<Rightarrow> (byte \<Rightarrow> byte)" where
  "map_upper i tt = tt(of_nat i := tt (of_nat (i + 32)))"

definition initTranslateTable :: "ACKS \<Rightarrow> ACKS" where
  "initTranslateTable ac =
     (let counts = count_bytes (patterns ac);
          (tt, asz) = fold (assign_symbol counts) [0..<256] (translateTable ac, 1);
          tt' = fold map_upper [65..<91] tt
      in ac\<lparr>translateTable := tt', alphabetSize := asz\<rparr>)"

subsection \<open>Trie, failure links and the dense table\<close>

type_synonym trie = "nat \<Rightarrow> byte \<Rightarrow> nat option"

fun add_content :: "(byte \<Rightarrow> byte) \<Rightarrow> byte list \<Rightarrow> trie \<times> nat \<times> nat list list \<times> nat
    \<Rightarrow> trie \<times> nat \<times> nat list list \<times> nat" where
  "add_content tt [] st = st"
| "add_content tt (b # bs) (trie, cnt, out, currentState) =
     (let tc = tt (toLower b) in
      case trie currentState tc of
        Some next \<Rightarrow> add_content tt bs (trie, cnt, out, next)
      | None \<Rightarrow>
          add_content tt bs
            (trie(currentState := (trie currentState)(tc \<mapsto> cnt)), cnt + 1, out @ [[]], cnt))"

fun build_trie :: "(byte \<Rightarrow> byte) \<Rightarrow> nat \<Rightarrow> Pattern list \<Rightarrow> trie \<times> nat \<times> nat list list
    \<Rightarrow> (trie \<times> nat \<times> nat list list) option" where
  "build_trie tt k [] st = Some st"
| "build_trie tt k (p # ps) (trie, cnt, out) =
     (case add_content tt (Content p) (trie, cnt, out, 0) of
        (trie', cnt', out', currentState) \<Rightarrow>
          (case index out' currentState of
             None \<Rightarrow> None
           | Some ks \<Rightarrow> build_trie tt (k + 1) ps (trie', cnt', out'[currentState := ks @ [k]])))"

text \<open>
  The two inner \<^verbatim>\<open>for { ... }\<close> loops of \<^verbatim>\<open>buildStateMachine\<close> (lines 155-167 and
  184-196) are the same walk: from \<open>fState\<close> along the failure links until a state has
  an edge for the symbol, or the root has none; both yield the edge's target, or 0.
  Not returning (a cycle of links, or a link read out of range) is \<open>None\<close>.
\<close>

partial_function (option) walk_failure :: "trie \<Rightarrow> nat list \<Rightarrow> byte \<Rightarrow> nat \<Rightarrow> nat option" where
  "walk_failure trie failure charCode fState =
     (case trie fState charCode of
        Some val \<Rightarrow> Some val
      | None \<Rightarrow>
          if fState = 0 then Some 0
          else (case index failure fState of
                  None \<Rightarrow> None
                | Some f \<Rightarrow> walk_failure trie failure charCode f))"

declare walk_failure.simps [code]

text \<open>
  Go leaves the order of \<^verbatim>\<open>range\<close> over a map open. The order in which the keys of
  \<^verbatim>\<open>trie[s]\<close> are visited is the list \<open>ord s\<close>; each map is ranged over once.
\<close>

fun root_links :: "trie \<Rightarrow> byte list \<Rightarrow> nat list \<times> nat list \<Rightarrow> (nat list \<times> nat list) option" where
  "root_links trie [] st = Some st"
| "root_links trie (c # cs) (queue, failure) =
     (case trie 0 c of
        None \<Rightarrow> root_links trie cs (queue, failure)
      | Some nextState \<Rightarrow>
          (case assign failure nextState 0 of
             None \<Rightarrow> None
           | Some failure' \<Rightarrow> root_links trie cs (queue @ [nextState], failure')))"

definition link_state :: "trie \<Rightarrow> nat \<Rightarrow> byte \<Rightarrow> nat \<Rightarrow> nat list \<times> nat list \<times> nat list list
    \<Rightarrow> (nat list \<times> nat list \<times> nat list list) option" where
  "link_state trie rState charCode nextState st =
     (case st of (queue, failure, out) \<Rightarrow>
        (case index failure rState of
           None \<Rightarrow> None
         | Some fState \<Rightarrow>
             (case walk_failure trie failure charCode fState of
                None \<Rightarrow> None
              | Some val \<Rightarrow>
                  (case assign failure nextState val of
                     None \<Rightarrow> None
                   | Some failure' \<Rightarrow>
                       (case index out nextState of
                          None \<Rightarrow> None
                        | Some own \<Rightarrow>
                            (case index out val of
                               None \<Rightarrow> None
                             | Some inherited \<Rightarrow>
                                 Some (queue @ [nextState], failure',
                                       out[nextState := own @ inherited])))))))"

fun visit_edges :: "trie \<Rightarrow> nat \<Rightarrow> byte list \<Rightarrow> nat list \<times> nat list \<times> nat list list
    \<Rightarrow> (nat list \<times> nat list \<times> nat list list) option" where
  "visit_edges trie rState [] st = Some st"
| "visit_edges trie rState (charCode # cs) st =
     (case trie rState charCode of
        None \<Rightarrow> visit_edges trie rState cs st
      | Some nextState \<Rightarrow>
          (case link_state trie rState charCode nextState st of
             None \<Rightarrow> None
           | Some st' \<Rightarrow> visit_edges trie rState cs st'))"

partial_function (option) bfs :: "trie \<Rightarrow> (nat \<Rightarrow> byte list) \<Rightarrow> nat list \<times> nat list \<times> nat list list
    \<Rightarrow> (nat list \<times> nat list list) option" where
  "bfs trie ord st =
     (case st of (queue, failure, out) \<Rightarrow>
        (case queue of
           [] \<Rightarrow> Some (failure, out)
         | rState # rest \<Rightarrow>
             (case visit_edges trie rState (ord rState) (rest, failure, out) of
                None \<Rightarrow> None
              | Some st' \<Rightarrow> bfs trie ord st')))"

declare bfs.simps [code]

fun fill_row :: "trie \<Rightarrow> nat list \<Rightarrow> nat \<Rightarrow> nat \<Rightarrow> nat list \<Rightarrow> nat list \<Rightarrow> nat list option" where
  "fill_row trie failure asz state [] tab = Some tab"
| "fill_row trie failure asz state (charIdx # cs) tab =
     (case walk_failure trie failure (of_nat charIdx) state of
        None \<Rightarrow> None
      | Some nextState \<Rightarrow>
          (case assign tab (state * asz + charIdx) nextState of
             None \<Rightarrow> None
           | Some tab' \<Rightarrow> fill_row trie failure asz state cs tab'))"

fun fill_table :: "trie \<Rightarrow> nat list \<Rightarrow> nat \<Rightarrow> nat list \<Rightarrow> nat list \<Rightarrow> nat list option" where
  "fill_table trie failure asz [] tab = Some tab"
| "fill_table trie failure asz (state # states) tab =
     (case fill_row trie failure asz state [0..<asz] tab of
        None \<Rightarrow> None
      | Some tab' \<Rightarrow> fill_table trie failure asz states tab')"

definition buildStateMachine :: "(nat \<Rightarrow> byte list) \<Rightarrow> ACKS \<Rightarrow> ACKS option" where
  "buildStateMachine ord ac =
     (case build_trie (translateTable ac) 0 (patterns ac) (\<lambda>_ _. None, 1, [[]]) of
        None \<Rightarrow> None
      | Some (trie, cnt, out) \<Rightarrow>
          (case root_links trie (ord 0) ([], replicate cnt 0) of
             None \<Rightarrow> None
           | Some (queue, failure) \<Rightarrow>
               (case bfs trie ord (queue, failure, out) of
                  None \<Rightarrow> None
                | Some (failure', out') \<Rightarrow>
                    (case fill_table trie failure' (alphabetSize ac) [0..<cnt]
                            (replicate (cnt * alphabetSize ac) 0) of
                       None \<Rightarrow> None
                     | Some tab \<Rightarrow>
                         Some (ac\<lparr>stateCount := cnt, outputTable := out', stateTable := tab\<rparr>)))))"

definition Build :: "(nat \<Rightarrow> byte list) \<Rightarrow> ACKS \<Rightarrow> ACKS option" where
  "Build ord ac = buildStateMachine ord (initTranslateTable ac)"

subsection \<open>Searching\<close>

definition maxSliceSize :: nat where
  "maxSliceSize = 16 * 1024 * 1024"

definition memcmp :: "byte list \<Rightarrow> byte list \<Rightarrow> nat \<Rightarrow> bool" where
  "memcmp a b l = (if l > length b \<or> l > length a then False else take l a = take l b)"

text \<open>The slice expression \<^verbatim>\<open>text[lo:]\<close>; \<open>None\<close> is Go's slice-bounds panic.\<close>

definition slice_from :: "byte list \<Rightarrow> int \<Rightarrow> byte list option" where
  "slice_from text lo = (if lo < 0 \<or> lo > int (length text) then None else Some (drop (nat lo) text))"

definition next_state :: "ACKS \<Rightarrow> nat \<Rightarrow> byte \<Rightarrow> nat" where
  "next_state ac currentState b =
     (let tc = translateTable ac b;
          idx = currentState * alphabetSize ac + unat tc
      in if idx \<ge> length (stateTable ac) then 0 else stateTable ac ! idx)"

type_synonym record_state = "64 word list \<times> nat set option"

definition mark_single :: "bool \<Rightarrow> Pattern \<Rightarrow> record_state \<Rightarrow> (bool \<times> record_state) outcome" where
  "mark_single useSlice pat rs =
     (case rs of (recordSlice, recordMap) \<Rightarrow>
        if useSlice then
          (let idx = ID pat div 64;
               mask = push_bit (ID pat mod 64) (1 :: 64 word)
           in case index recordSlice idx of
                None \<Rightarrow> Panicked IndexOutOfRange
              | Some w \<Rightarrow>
                  if w AND mask \<noteq> 0 then Returned (True, rs)
                  else Returned (False, (recordSlice[idx := w OR mask], recordMap)))
        else
          (case recordMap of
             None \<Rightarrow> Panicked NilMapAssignment
           | Some m \<Rightarrow>
               if ID pat \<in> m then Returned (True, rs)
               else Returned (False, (recordSlice, Some (insert (ID pat) m)))))"

fun report_outputs :: "ACKS \<Rightarrow> bool \<Rightarrow> byte list \<Rightarrow> ('s \<Rightarrow> nat \<Rightarrow> Pattern \<Rightarrow> error option \<times> 's) \<Rightarrow> nat
    \<Rightarrow> nat list \<Rightarrow> record_state \<times> 's \<Rightarrow> (error option \<times> record_state \<times> 's) outcome" where
  "report_outputs ac useSlice text matched i [] (rs, s) = Returned (None, rs, s)"
| "report_outputs ac useSlice text matched i (pid # pids) (rs, s) =
     (case index (patterns ac) pid of
        None \<Rightarrow> Panicked IndexOutOfRange
      | Some pat \<Rightarrow>
          (case (if Flags pat AND SingleMatch > 0 then mark_single useSlice pat rs
                 else Returned (False, rs)) of
             Panicked p \<Rightarrow> Panicked p
           | Returned (skip, rs') \<Rightarrow>
               if skip then report_outputs ac useSlice text matched i pids (rs', s)
               else if Flags pat AND Caseless > 0 then
                 (case matched s (Suc i) pat of
                    (Some err, s') \<Rightarrow> Returned (Some err, rs', s')
                  | (None, s') \<Rightarrow> report_outputs ac useSlice text matched i pids (rs', s'))
               else
                 (case slice_from text (int i - int (strlen pat) + 1) of
                    None \<Rightarrow> Panicked SliceBoundsOutOfRange
                  | Some window \<Rightarrow>
                      if memcmp (Content pat) window (strlen pat) then
                        (case matched s (Suc i) pat of
                           (Some err, s') \<Rightarrow> Returned (Some err, rs', s')
                         | (None, s') \<Rightarrow> report_outputs ac useSlice text matched i pids (rs', s'))
                      else report_outputs ac useSlice text matched i pids (rs', s))))"

fun search_bytes :: "ACKS \<Rightarrow> bool \<Rightarrow> byte list \<Rightarrow> ('s \<Rightarrow> nat \<Rightarrow> Pattern \<Rightarrow> error option \<times> 's) \<Rightarrow> nat
    \<Rightarrow> byte list \<Rightarrow> nat \<times> record_state \<times> 's \<Rightarrow> (error option \<times> 's) outcome" where
  "search_bytes ac useSlice text matched i [] (currentState, rs, s) = Returned (None, s)"
| "search_bytes ac useSlice text matched i (b # bs) (currentState, rs, s) =
     (let currentState' = next_state ac currentState b in
      case index (outputTable ac) currentState' of
        None \<Rightarrow> Panicked IndexOutOfRange
      | Some outs \<Rightarrow>
          if length outs > 0 then
            (case report_outputs ac useSlice text matched i outs (rs, s) of
               Panicked p \<Rightarrow> Panicked p
             | Returned (Some err, rs', s') \<Rightarrow> Returned (Some err, s')
             | Returned (None, rs', s') \<Rightarrow>
                 search_bytes ac useSlice text matched (Suc i) bs (currentState', rs', s'))
          else search_bytes ac useSlice text matched (Suc i) bs (currentState', rs, s))"

text \<open>\<^verbatim>\<open>searchPatterns\<close> with the constant \<^verbatim>\<open>maxSliceSize\<close> as a parameter.\<close>

definition searchPatterns_with :: "nat \<Rightarrow> ACKS \<Rightarrow> byte list
    \<Rightarrow> ('s \<Rightarrow> nat \<Rightarrow> Pattern \<Rightarrow> error option \<times> 's) \<Rightarrow> 's \<Rightarrow> (error option \<times> 's) outcome" where
  "searchPatterns_with threshold ac text matched s =
     (let useSlice = (maxID ac \<le> threshold);
          rs = (if hasSingleMatch ac then
                  (if useSlice then (replicate (maxID ac div 64 + 1) 0, None)
                   else ([], Some {}))
                else ([], None))
      in search_bytes ac useSlice text matched 0 text (0, rs, s))"

definition searchPatterns :: "ACKS \<Rightarrow> byte list
    \<Rightarrow> ('s \<Rightarrow> nat \<Rightarrow> Pattern \<Rightarrow> error option \<times> 's) \<Rightarrow> 's \<Rightarrow> (error option \<times> 's) outcome" where
  "searchPatterns = searchPatterns_with maxSliceSize"

text \<open>
  A Go closure that may change the caller's variables and return an error is a function
  from the caller's state to the error and the new state. \<^verbatim>\<open>Search\<close>'s closure appends to
  \<^verbatim>\<open>matches\<close>; \<^verbatim>\<open>Scan\<close>'s closure hands \<open>(id, 0, pos)\<close> on to the caller's handler \<open>m\<close>.
\<close>

definition Search :: "ACKS \<Rightarrow> byte list \<Rightarrow> (nat list option \<times> error option) outcome" where
  "Search ac text =
     (case searchPatterns ac text (\<lambda>matches pos ps. (None, matches @ [ID ps])) [] of
        Panicked p \<Rightarrow> Panicked p
      | Returned (Some err, matches) \<Rightarrow> Returned (None, Some err)
      | Returned (None, matches) \<Rightarrow> Returned (Some matches, None))"

definition Scan :: "ACKS \<Rightarrow> byte list \<Rightarrow> ('s \<Rightarrow> nat \<Rightarrow> nat \<Rightarrow> nat \<Rightarrow> error option \<times> 's) \<Rightarrow> 's
    \<Rightarrow> (error option \<times> 's) outcome" where
  "Scan ac text m s =
     (case searchPatterns ac text (\<lambda>s pos ps. case m s (ID ps) 0 pos of
                                               (Some err, s') \<Rightarrow> (Some err, s')
                                             | (None, s') \<Rightarrow> (None, s')) s of
        Panicked p \<Rightarrow> Panicked p
      | Returned (Some err, s') \<Rightarrow> Returned (Some err, s')
      | Returned (None, s') \<Rightarrow> Returned (None, s'))"

text \<open>Registering a list of patterns on a fresh matcher, then \<^verbatim>\<open>Build\<close>.\<close>

definition add_patterns :: "ACKS \<Rightarrow> Pattern list \<Rightarrow> ACKS" where
  "add_patterns ac ps = fold (\<lambda>p ac. snd (AddPattern ac p)) ps ac"

definition compile :: "(nat \<Rightarrow> byte list) \<Rightarrow> Pattern list \<Rightarrow> ACKS option" where
  "compile ord ps = Build ord (add_patterns NewACKS ps)"

text \<open>The byte slice of a string literal, and the test file's \<^verbatim>\<open>mkPat\<close>.\<close>

definition bytes :: "string \<Rightarrow> byte list" where
  "bytes s = map of_char s"

definition mkPat :: "string \<Rightarrow> nat \<Rightarrow> nat \<Rightarrow> Pattern" where
  "mkPat content pid flags =
     \<lparr>Content = bytes content, ID = pid, Flags = flags, strlen = length content\<rparr>"

definition ascending :: "nat \<Rightarrow> byte list" where
  "ascending s = map of_nat [0..<256]"

section \<open>Specification-level notions\<close>

definition is_upper :: "nat \<Rightarrow> bool" where
  "is_upper i \<longleftrightarrow> 65 \<le> i \<and> i \<le> 90"

definition folded :: "Pattern list \<Rightarrow> byte set" where
  "folded ps = toLower ` (\<Union>p\<in>set ps. set (Content p))"

definition used :: "(byte \<Rightarrow> nat) \<Rightarrow> nat \<Rightarrow> bool" where
  "used counts i \<longleftrightarrow> \<not> is_upper i \<and> counts (of_nat i) > 0"

definition rank :: "(byte \<Rightarrow> nat) \<Rightarrow> nat \<Rightarrow> nat" where
  "rank counts m = length (filter (used counts) [0..<m])"

definition symbol_code :: "(byte \<Rightarrow> nat) \<Rightarrow> nat \<Rightarrow> byte" where
  "symbol_code counts i = of_nat (1 + rank counts i)"

definition symbol_of :: "Pattern list \<Rightarrow> byte \<Rightarrow> byte" where
  "symbol_of ps b = (let c = toLower b in
     if c \<in> folded ps then symbol_code (count_bytes ps) (unat c) else 0)"

definition tinv :: "trie \<Rightarrow> nat \<Rightarrow> (nat \<Rightarrow> byte list) \<Rightarrow> bool" where
  "tinv trie n lab \<longleftrightarrow> 0 < n \<and> lab 0 = [] \<and> inj_on lab {..<n} \<and>
     (\<forall>s c t. trie s c = Some t \<longrightarrow> s < n \<and> t < n \<and> lab t = lab s @ [c]) \<and>
     (\<forall>t. 0 < t \<and> t < n \<longrightarrow> (\<exists>s c. trie s c = Some t))"

definition own :: "byte list list \<Rightarrow> byte list \<Rightarrow> nat list" where
  "own ws v = filter (\<lambda>k. ws ! k = v) [0..<length ws]"

definition trie_ok :: "byte list list \<Rightarrow> trie \<Rightarrow> nat \<Rightarrow> nat list list \<Rightarrow> (nat \<Rightarrow> byte list) \<Rightarrow> bool" where
  "trie_ok ws trie n out lab \<longleftrightarrow> tinv trie n lab \<and> length out = n \<and>
     (\<forall>s<n. out ! s = own ws (lab s)) \<and> (\<forall>k<length ws. \<exists>s<n. lab s = ws ! k)"

definition symbols :: "(byte \<Rightarrow> byte) \<Rightarrow> Pattern \<Rightarrow> byte list" where
  "symbols tt p = map (\<lambda>b. tt (toLower b)) (Content p)"

definition is_fail :: "(nat \<Rightarrow> byte list) \<Rightarrow> nat \<Rightarrow> nat \<Rightarrow> nat \<Rightarrow> bool" where
  "is_fail lab n s f \<longleftrightarrow> f < n \<and> strict_suffix (lab f) (lab s) \<and>
     (\<forall>t<n. strict_suffix (lab t) (lab s) \<longrightarrow> suffix (lab t) (lab f))"

definition is_lsl :: "(nat \<Rightarrow> byte list) \<Rightarrow> nat \<Rightarrow> byte list \<Rightarrow> nat \<Rightarrow> bool" where
  "is_lsl lab n u t \<longleftrightarrow> t < n \<and> suffix (lab t) u \<and>
     (\<forall>t'<n. suffix (lab t') u \<longrightarrow> suffix (lab t') (lab t))"

fun out_spec :: "byte list list \<Rightarrow> byte list \<Rightarrow> nat list" where
  "out_spec ws [] = []"
| "out_spec ws (x # xs) = own ws (x # xs) @ out_spec ws xs"

definition labelled :: "byte list list \<Rightarrow> nat \<Rightarrow> (nat \<Rightarrow> byte list) \<Rightarrow> bool" where
  "labelled ws n lab \<longleftrightarrow> (\<forall>k<length ws. \<exists>s<n. lab s = ws ! k)"

definition links_ok :: "nat \<Rightarrow> (nat \<Rightarrow> byte list) \<Rightarrow> byte list list \<Rightarrow> nat set \<Rightarrow> nat list \<Rightarrow> nat list list \<Rightarrow> bool" where
  "links_ok n lab ws A failure out \<longleftrightarrow>
     length failure = n \<and> length out = n \<and> 0 \<in> A \<and> A \<subseteq> {..<n} \<and>
     (\<forall>s\<in>A. s \<noteq> 0 \<longrightarrow> is_fail lab n s (failure ! s)) \<and>
     (\<forall>s<n. \<forall>k\<in>set (out ! s). k < length ws \<and> suffix (ws ! k) (lab s)) \<and>
     (\<forall>s<n. s \<notin> A \<or> s = 0 \<longrightarrow> out ! s = own ws (lab s)) \<and>
     ([] \<notin> set ws \<longrightarrow> (\<forall>s\<in>A. out ! s = out_spec ws (lab s))) \<and>
     (\<forall>s\<in>A. \<forall>k<length ws. ws ! k \<noteq> [] \<and> suffix (ws ! k) (lab s) \<longrightarrow> k \<in> set (out ! s))"

definition kids :: "trie \<Rightarrow> nat \<Rightarrow> byte list \<Rightarrow> nat list" where
  "kids trie s cs = List.map_filter (trie s) cs"

text \<open>\<^bold>\<open>States of depth at most one.\<close>
  The root and its children keep the output list the trie gave them: the merge of
  \<^verbatim>\<open>outputTable[failure[next]]\<close> is done for the children of queued states only, and the
  root is never queued.\<close>

definition shallow_own :: "byte list list \<Rightarrow> nat \<Rightarrow> (nat \<Rightarrow> byte list) \<Rightarrow> nat list list \<Rightarrow> bool" where
  "shallow_own ws n lab out \<longleftrightarrow> (\<forall>s<n. length (lab s) \<le> 1 \<longrightarrow> out ! s = own ws (lab s))"

definition key_order :: "(nat \<Rightarrow> byte list) \<Rightarrow> bool" where
  "key_order ord \<longleftrightarrow> (\<forall>s. distinct (ord s) \<and> set (ord s) = UNIV)"

definition children :: "trie \<Rightarrow> nat set \<Rightarrow> nat set" where
  "children trie D = {t. \<exists>s\<in>D. \<exists>c. trie s c = Some t}"

definition bfs_inv :: "trie \<Rightarrow> nat \<Rightarrow> (nat \<Rightarrow> byte list) \<Rightarrow> byte list list \<Rightarrow> nat set
    \<Rightarrow> nat list \<Rightarrow> nat list \<Rightarrow> nat list list \<Rightarrow> bool" where
  "bfs_inv trie n lab ws D queue failure out \<longleftrightarrow>
     links_ok n lab ws (D \<union> set queue) failure out \<and> 0 \<in> D \<and> distinct queue \<and>
     D \<inter> set queue = {} \<and> D \<union> set queue = insert 0 (children trie D) \<and>
     sorted (map (\<lambda>s. length (lab s)) queue) \<and>
     (\<exists>d. (\<forall>s\<in>D. length (lab s) \<le> d) \<and>
          (\<forall>q\<in>set queue. d \<le> length (lab q) \<and> length (lab q) \<le> d + 1))"

definition words :: "Pattern list \<Rightarrow> byte list list" where
  "words ps = map (symbols (symbol_of ps)) ps"

text \<open>\<^bold>\<open>Complete output lists.\<close>
  Every pattern with a non-empty symbol word that is a suffix of a state's label is in
  the state's output list, whatever else is registered.\<close>

definition complete_out :: "byte list list \<Rightarrow> nat \<Rightarrow> (nat \<Rightarrow> byte list) \<Rightarrow> nat list list \<Rightarrow> bool" where
  "complete_out ws n lab out \<longleftrightarrow>
     (\<forall>s<n. \<forall>k<length ws. ws ! k \<noteq> [] \<and> suffix (ws ! k) (lab s) \<longrightarrow> k \<in> set (out ! s))"

definition automaton_ok :: "Pattern list \<Rightarrow> (nat \<Rightarrow> byte list) \<Rightarrow> nat \<Rightarrow> ACKS \<Rightarrow> bool" where
  "automaton_ok ps lab n ac \<longleftrightarrow>
     (\<exists>trie. tinv trie n lab) \<and> labelled (words ps) n lab \<and>
     patterns ac = ps \<and> translateTable ac = symbol_of ps \<and>
     alphabetSize ac = 1 + rank (count_bytes ps) 256 \<and>
     stateCount ac = n \<and> length (outputTable ac) = n \<and>
     (\<forall>s<n. \<forall>k\<in>set (outputTable ac ! s). k < length ps \<and> suffix (words ps ! k) (lab s)) \<and>
     ([] \<notin> set (words ps) \<longrightarrow> (\<forall>s<n. outputTable ac ! s = out_spec (words ps) (lab s))) \<and>
     length (stateTable ac) = n * alphabetSize ac \<and>
     (\<forall>s<n. \<forall>c<alphabetSize ac.
        is_lsl lab n (lab s @ [of_nat c]) (stateTable ac ! (s * alphabetSize ac + c)))"

definition norm :: "Pattern \<Rightarrow> Pattern" where
  "norm p = p\<lparr>strlen := length (Content p)\<rparr>"

definition registered :: "ACKS \<Rightarrow> bool" where
  "registered ac \<longleftrightarrow> (\<forall>p\<in>set (patterns ac).
     ID p \<le> maxID ac \<and> (Flags p AND SingleMatch > 0 \<longrightarrow> hasSingleMatch ac) \<and>
     strlen p = length (Content p))"

definition run :: "ACKS \<Rightarrow> byte list \<Rightarrow> nat" where
  "run ac text = foldl (next_state ac) 0 text"

definition exact_at :: "byte list \<Rightarrow> byte list \<Rightarrow> nat \<Rightarrow> bool" where
  "exact_at c text i \<longleftrightarrow> length c \<le> Suc i \<and> take (length c) (drop (Suc i - length c) text) = c"

fun feed :: "('s \<Rightarrow> nat \<Rightarrow> Pattern \<Rightarrow> error option \<times> 's) \<Rightarrow> (nat \<times> Pattern) list \<Rightarrow> 's
    \<Rightarrow> error option \<times> 's" where
  "feed matched [] s = (None, s)"
| "feed matched ((pos, pat) # evs) s =
     (case matched s pos pat of
        (Some err, s') \<Rightarrow> (Some err, s')
      | (None, s') \<Rightarrow> feed matched evs s')"

fun select :: "Pattern list \<Rightarrow> byte list \<Rightarrow> nat set \<Rightarrow> (nat \<times> nat) list \<Rightarrow> (nat \<times> Pattern) list" where
  "select ps text seen [] = []"
| "select ps text seen ((i, k) # cs) =
     (let pat = ps ! k in
      if Flags pat AND SingleMatch > 0 \<and> ID pat \<in> seen then select ps text seen cs
      else (let seen' = (if Flags pat AND SingleMatch > 0 then insert (ID pat) seen else seen) in
            if Flags pat AND Caseless > 0 \<or> exact_at (Content pat) text i
            then (Suc i, pat) # select ps text seen' cs
            else select ps text seen' cs))"

fun marks :: "Pattern list \<Rightarrow> nat set \<Rightarrow> (nat \<times> nat) list \<Rightarrow> nat set" where
  "marks ps seen [] = seen"
| "marks ps seen ((i, k) # cs) =
     marks ps (if Flags (ps ! k) AND SingleMatch > 0 then insert (ID (ps ! k)) seen else seen) cs"

definition cands_from :: "ACKS \<Rightarrow> byte list \<Rightarrow> nat \<Rightarrow> (nat \<times> nat) list" where
  "cands_from ac text i =
     concat (map (\<lambda>j. map (Pair j) (outputTable ac ! run ac (take (Suc j) text))) [i..<length text])"

definition searchable :: "ACKS \<Rightarrow> bool" where
  "searchable ac \<longleftrightarrow> registered ac \<and>
     (\<forall>text. run ac text < length (outputTable ac) \<and>
        (\<forall>k\<in>set (outputTable ac ! run ac text).
           k < length (patterns ac) \<and> strlen (patterns ac ! k) \<le> length text))"

definition rec_rel :: "ACKS \<Rightarrow> bool \<Rightarrow> record_state \<Rightarrow> nat set \<Rightarrow> bool" where
  "rec_rel ac useSlice rs seen \<longleftrightarrow>
     (hasSingleMatch ac \<longrightarrow>
        (if useSlice then
           length (fst rs) = maxID ac div 64 + 1 \<and>
           (\<forall>x\<le>maxID ac. (fst rs ! (x div 64)) AND push_bit (x mod 64) 1 \<noteq> 0 \<longleftrightarrow> x \<in> seen)
         else snd rs = Some seen))"

definition folded_at :: "byte list \<Rightarrow> byte list \<Rightarrow> nat \<Rightarrow> bool" where
  "folded_at c text i \<longleftrightarrow> length c \<le> Suc i \<and>
     map toLower (take (length c) (drop (Suc i - length c) text)) = map toLower c"

definition matches_at :: "Pattern list \<Rightarrow> byte list \<Rightarrow> nat \<Rightarrow> nat list" where
  "matches_at ps text i =
     concat (map (\<lambda>l. filter (\<lambda>k. length (Content (ps ! k)) = l \<and> folded_at (Content (ps ! k)) text i)
                          [0..<length ps])
                 (rev [1..<Suc (Suc i)]))"

definition spec_cands :: "Pattern list \<Rightarrow> byte list \<Rightarrow> (nat \<times> nat) list" where
  "spec_cands ps text = concat (map (\<lambda>i. map (Pair i) (matches_at ps text i)) [0..<length text])"

text \<open>\<^bold>\<open>Observing a handler.\<close>
  \<open>logged m\<close> is the handler \<open>m\<close> that also appends each call it receives to a log kept
  beside the caller's state; \<open>scan_calls\<close> is the log of a \<^verbatim>\<open>Scan\<close> whose handler never
  fails; \<open>deliver\<close> hands a list of calls to a handler until it fails.\<close>

definition logged :: "('s \<Rightarrow> nat \<Rightarrow> nat \<Rightarrow> nat \<Rightarrow> error option \<times> 's)
    \<Rightarrow> 's \<times> (nat \<times> nat \<times> nat) list \<Rightarrow> nat \<Rightarrow> nat \<Rightarrow> nat
    \<Rightarrow> error option \<times> 's \<times> (nat \<times> nat \<times> nat) list" where
  "logged m sl pid start stop =
     (case m (fst sl) pid start stop of (err, s') \<Rightarrow> (err, (s', snd sl @ [(pid, start, stop)])))"

definition scan_calls :: "ACKS \<Rightarrow> byte list \<Rightarrow> (nat \<times> nat \<times> nat) list" where
  "scan_calls ac text =
     (case Scan ac text (logged (\<lambda>s pid start stop. (None, s))) ((), []) of
        Returned (err, (s, log)) \<Rightarrow> log
      | Panicked p \<Rightarrow> [])"

fun deliver :: "('s \<Rightarrow> nat \<Rightarrow> nat \<Rightarrow> nat \<Rightarrow> error option \<times> 's) \<Rightarrow> (nat \<times> nat \<times> nat) list \<Rightarrow> 's
    \<Rightarrow> error option \<times> 's" where
  "deliver m [] s = (None, s)"
| "deliver m ((pid, start, stop) # cs) s =
     (case m s pid start stop of
        (Some err, s') \<Rightarrow> (Some err, s')
      | (None, s') \<Rightarrow> deliver m cs s')"

definition events :: "ACKS \<Rightarrow> byte list \<Rightarrow> (nat \<times> Pattern) list" where
  "events ac text = select (patterns ac) text {} (cands_from ac text 0)"

definition call_of :: "nat \<times> Pattern \<Rightarrow> nat \<times> nat \<times> nat" where
  "call_of ev = (ID (snd ev), 0, fst ev)"

text \<open>\<^bold>\<open>Occurrences.\<close>
  \<open>exact_at c text i\<close>: the bytes \<open>c\<close> are the bytes of \<open>text\<close> that end at index \<open>i\<close>;
  \<open>folded_at c text i\<close>: the same after folding \<open>A-Z\<close> to \<open>a-z\<close> on both sides;
  \<open>accepts p text i\<close>: pattern \<open>p\<close> occurs ending at index \<open>i\<close> in the way its flags accept.\<close>

definition accepts :: "Pattern \<Rightarrow> byte list \<Rightarrow> nat \<Rightarrow> bool" where
  "accepts p text i \<longleftrightarrow>
     (if Flags p AND Caseless > 0 then folded_at (Content p) text i else exact_at (Content p) text i)"



section \<open>Proofs\<close>

lemma count_inner:
  "fold count_byte bs cnt c > 0 \<longleftrightarrow> cnt c > 0 \<or> c \<in> toLower ` set bs"
  by (induction bs arbitrary: cnt) (auto simp: count_byte_def)

lemma count_outer:
  "fold (\<lambda>p. fold count_byte (Content p)) ps cnt c > 0 \<longleftrightarrow> cnt c > 0 \<or> c \<in> folded ps"
  by (induction ps arbitrary: cnt) (auto simp: count_inner folded_def)

lemma count_bytes_pos: "count_bytes ps c > 0 \<longleftrightarrow> c \<in> folded ps"
  by (simp add: count_bytes_def count_outer)

lemma unat_byte_less: "unat (b :: byte) < 256"
  using unsigned_less [of b, where ?'a = nat] by simp

lemma toLower_unat: "unat (toLower b) = (if is_upper (unat b) then unat b + 32 else unat b)"
proof -
  have "unat (b + 32) = (unat b + 32) mod 256"
    by (simp add: unat_word_ariths)
  moreover have "b \<ge> 65 \<longleftrightarrow> unat b \<ge> 65" "b \<le> 90 \<longleftrightarrow> unat b \<le> 90"
    by (simp_all add: word_le_nat_alt)
  ultimately show ?thesis
    by (auto simp: toLower_def is_upper_def)
qed

lemma toLower_not_upper: "\<not> is_upper (unat (toLower b))"
  by (simp add: toLower_unat is_upper_def)

lemma toLower_idem: "toLower (toLower b) = toLower b"
  by (metis toLower_unat toLower_not_upper word_unat_eq_iff)

lemma of_nat_unat_byte: "(of_nat (unat b) :: byte) = b"
  by simp

lemma unat_of_nat_byte: "i < 256 \<Longrightarrow> unat (of_nat i :: byte) = i"
  by (simp add: unat_of_nat)

lemma rank_Suc: "rank counts (Suc m) = (if used counts m then Suc (rank counts m) else rank counts m)"
  by (simp add: rank_def)

lemma rank_mono: "i \<le> j \<Longrightarrow> rank counts i \<le> rank counts j"
  by (induction j) (auto simp: rank_Suc le_Suc_eq)

lemma rank_less: "used counts i \<Longrightarrow> i < j \<Longrightarrow> rank counts i < rank counts j"
  using rank_mono [of "Suc i" j counts] by (simp add: rank_Suc)

lemma rank_bound_aux:
  "rank counts m \<le> (if m \<le> 65 then m else if m \<le> 91 then 65 else m - 26)"
  by (induction m) (auto simp: rank_Suc rank_def used_def is_upper_def split: if_splits)

lemma rank_bound: "m \<le> 256 \<Longrightarrow> rank counts m \<le> 230"
  using rank_bound_aux [of counts m] by (auto split: if_splits)

lemma rank_inj: "used counts i \<Longrightarrow> used counts j \<Longrightarrow> rank counts i = rank counts j \<Longrightarrow> i = j"
  by (metis rank_less nat_neq_iff)

lemma of_nat_byte_inj: "i < 256 \<Longrightarrow> j < 256 \<Longrightarrow> (of_nat i :: byte) = of_nat j \<Longrightarrow> i = j"
  by (metis unat_of_nat_byte)

lemma symbols_loop:
  "m \<le> 256 \<Longrightarrow> \<exists>tt. fold (assign_symbol counts) [0..<m] (tt0, 1) = (tt, 1 + rank counts m) \<and>
     (\<forall>i<m. \<not> is_upper i \<longrightarrow>
        tt (of_nat i) = (if counts (of_nat i) > 0 then symbol_code counts i else 0))"
proof (induction m)
  case 0
  then show ?case by (simp add: rank_def)
next
  case (Suc m)
  then obtain tt where tt: "fold (assign_symbol counts) [0..<m] (tt0, 1) = (tt, 1 + rank counts m)"
    and old: "\<forall>i<m. \<not> is_upper i \<longrightarrow>
        tt (of_nat i) = (if counts (of_nat i) > 0 then symbol_code counts i else 0)"
    by auto
  have ne: "(of_nat i :: byte) \<noteq> of_nat m" if "i < m" for i
    using of_nat_byte_inj [of i m] that Suc.prems by auto
  show ?case
  proof (cases "is_upper m")
    case True
    then have "fold (assign_symbol counts) [0..<Suc m] (tt0, 1) = (tt, 1 + rank counts (Suc m))"
      using tt by (auto simp: assign_symbol_def rank_Suc used_def is_upper_def)
    with old True show ?thesis
      by (auto simp: less_Suc_eq)
  next
    case False
    show ?thesis
    proof (cases "counts (of_nat m) > 0")
      case True
      with False have "fold (assign_symbol counts) [0..<Suc m] (tt0, 1)
          = (tt(of_nat m := symbol_code counts m), 1 + rank counts (Suc m))"
        using tt by (auto simp: assign_symbol_def rank_Suc used_def is_upper_def symbol_code_def)
      with old True ne show ?thesis
        by (auto simp: less_Suc_eq)
    next
      case nz: False
      with False have "fold (assign_symbol counts) [0..<Suc m] (tt0, 1)
          = (tt(of_nat m := 0), 1 + rank counts (Suc m))"
        using tt by (auto simp: assign_symbol_def rank_Suc used_def is_upper_def)
      with old nz ne show ?thesis
        by (auto simp: less_Suc_eq)
    qed
  qed
qed

lemma upper_loop:
  "m \<le> 91 \<Longrightarrow> fold map_upper [65..<m] tt x
     = (if 65 \<le> unat x \<and> unat x < m then tt (x + 32) else tt x)"
proof (induction m arbitrary: x)
  case 0
  then show ?case by simp
next
  case (Suc m)
  show ?case
  proof (cases "65 \<le> m")
    case False
    then show ?thesis by auto
  next
    case True
    have m: "m < 256" using Suc.prems by simp
    have xm: "x = of_nat m \<longleftrightarrow> unat x = m"
      using m by (metis unat_of_nat_byte of_nat_unat_byte)
    have step: "fold map_upper [65..<Suc m] tt x
        = (if x = of_nat m then fold map_upper [65..<m] tt (x + 32) else fold map_upper [65..<m] tt x)"
      using True by (auto simp: map_upper_def)
    have hi: "fold map_upper [65..<m] tt (x + 32) = tt (x + 32)" if "unat x = m"
    proof -
      have "unat (x + 32) = (unat x + 32) mod 256"
        by (simp add: unat_word_ariths)
      then have "unat (x + 32) = m + 32"
        using that Suc.prems by simp
      then show ?thesis
        using Suc.IH [of "x + 32"] Suc.prems by auto
    qed
    have "fold map_upper [65..<Suc m] tt x
        = (if 65 \<le> unat x \<and> unat x < Suc m then tt (x + 32) else tt x)"
      unfolding step using Suc.IH [of x] Suc.prems True xm hi
      by (auto simp: less_Suc_eq)
    then show ?thesis .
  qed
qed

lemma toLower_alt: "toLower b = (if 65 \<le> unat b \<and> unat b < 91 then b + 32 else b)"
proof -
  have "b \<ge> 65 \<longleftrightarrow> unat b \<ge> 65" "b \<le> 90 \<longleftrightarrow> unat b \<le> 90"
    by (simp_all add: word_le_nat_alt)
  then show ?thesis by (auto simp: toLower_def)
qed

lemma initTranslateTable_table:
  "translateTable (initTranslateTable ac) = symbol_of (patterns ac)"
  and initTranslateTable_size:
  "alphabetSize (initTranslateTable ac) = 1 + rank (count_bytes (patterns ac)) 256"
  and initTranslateTable_patterns:
  "patterns (initTranslateTable ac) = patterns ac"
proof -
  let ?counts = "count_bytes (patterns ac)"
  obtain tt where tt: "fold (assign_symbol ?counts) [0..<256] (translateTable ac, 1)
       = (tt, 1 + rank ?counts 256)"
    and vals: "\<forall>i<256. \<not> is_upper i \<longrightarrow>
        tt (of_nat i) = (if ?counts (of_nat i) > 0 then symbol_code ?counts i else 0)"
    using symbols_loop [of 256 ?counts "translateTable ac"] by auto
  have ac': "initTranslateTable ac
      = ac\<lparr>translateTable := fold map_upper [65..<91] tt, alphabetSize := 1 + rank ?counts 256\<rparr>"
    unfolding initTranslateTable_def Let_def tt by simp
  show "alphabetSize (initTranslateTable ac) = 1 + rank ?counts 256"
    and "patterns (initTranslateTable ac) = patterns ac"
    by (simp_all add: ac')
  have "fold map_upper [65..<91] tt b = symbol_of (patterns ac) b" for b
  proof -
    have "fold map_upper [65..<91] tt b = tt (toLower b)"
      by (subst upper_loop) (simp_all add: toLower_alt)
    also have "\<dots> = tt (of_nat (unat (toLower b)))"
      by simp
    also have "\<dots> = (if ?counts (toLower b) > 0 then symbol_code ?counts (unat (toLower b)) else 0)"
      using vals [rule_format, of "unat (toLower b)"] toLower_not_upper [of b]
        unat_byte_less [of "toLower b"] by simp
    finally show ?thesis
      by (simp add: symbol_of_def Let_def count_bytes_pos)
  qed
  then show "translateTable (initTranslateTable ac) = symbol_of (patterns ac)"
    by (auto simp: ac')
qed

lemma symbol_of_toLower: "symbol_of ps (toLower b) = symbol_of ps b"
  by (simp add: symbol_of_def toLower_idem)

lemma folded_used: "c \<in> folded ps \<Longrightarrow> used (count_bytes ps) (unat c)"
  by (auto simp: used_def count_bytes_pos folded_def toLower_not_upper)

lemma folded_fixed: "c \<in> folded ps \<Longrightarrow> toLower c = c"
  by (auto simp: folded_def toLower_idem)

lemma symbol_code_unat:
  "c \<in> folded ps \<Longrightarrow> unat (symbol_code (count_bytes ps) (unat c)) = 1 + rank (count_bytes ps) (unat c)"
proof -
  have "1 + rank (count_bytes ps) (unat c) < 256"
    using rank_bound [of "unat c" "count_bytes ps"] unat_byte_less [of c] by simp
  then show ?thesis unfolding symbol_code_def by (rule unat_of_nat_byte)
qed

lemma symbol_of_eq_iff:
  assumes "x \<in> folded ps"
  shows "symbol_of ps b = symbol_of ps x \<longleftrightarrow> toLower b = x"
proof
  assume "toLower b = x"
  then show "symbol_of ps b = symbol_of ps x"
    using symbol_of_toLower by metis
next
  assume eq: "symbol_of ps b = symbol_of ps x"
  have x: "symbol_of ps x = symbol_code (count_bytes ps) (unat x)"
    using assms by (simp add: symbol_of_def folded_fixed)
  then have nz: "unat (symbol_of ps x) \<noteq> 0"
    using symbol_code_unat [OF assms] by simp
  have "toLower b \<in> folded ps"
  proof (rule ccontr)
    assume "toLower b \<notin> folded ps"
    then have "symbol_of ps b = 0" by (simp add: symbol_of_def)
    with eq nz show False by simp
  qed
  then have b: "symbol_of ps b = symbol_code (count_bytes ps) (unat (toLower b))"
    and ub: "unat (symbol_of ps b) = 1 + rank (count_bytes ps) (unat (toLower b))"
    using symbol_code_unat [of "toLower b" ps] by (simp_all add: symbol_of_def)
  have "unat (symbol_of ps x) = 1 + rank (count_bytes ps) (unat x)"
    using x symbol_code_unat [OF assms] by simp
  with ub eq have "rank (count_bytes ps) (unat (toLower b)) = rank (count_bytes ps) (unat x)"
    by simp
  then have "unat (toLower b) = unat x"
    using rank_inj folded_used [OF assms] folded_used [OF \<open>toLower b \<in> folded ps\<close>] by blast
  then show "toLower b = x" by (simp add: word_unat_eq_iff)
qed

lemma symbol_of_less: "unat (symbol_of ps b) < 1 + rank (count_bytes ps) 256"
proof (cases "toLower b \<in> folded ps")
  case True
  then have "unat (symbol_of ps b) = 1 + rank (count_bytes ps) (unat (toLower b))"
    using symbol_code_unat [of "toLower b" ps] by (simp add: symbol_of_def)
  moreover have "rank (count_bytes ps) (unat (toLower b)) < rank (count_bytes ps) 256"
    using rank_less [OF folded_used [OF True]] unat_byte_less [of "toLower b"] by blast
  ultimately show ?thesis by simp
next
  case False
  then show ?thesis by (simp add: symbol_of_def)
qed

lemma tinv_edge: "tinv trie n lab \<Longrightarrow> trie s c = Some t \<Longrightarrow> s < n \<and> t < n \<and> lab t = lab s @ [c]"
  by (auto simp: tinv_def)

lemma tinv_parent: "tinv trie n lab \<Longrightarrow> t < n \<Longrightarrow> lab t \<noteq> [] \<Longrightarrow> \<exists>s c. trie s c = Some t"
  by (metis tinv_def not_gr_zero)

lemma tinv_inj: "tinv trie n lab \<Longrightarrow> s < n \<Longrightarrow> t < n \<Longrightarrow> lab s = lab t \<Longrightarrow> s = t"
  by (auto simp: tinv_def inj_on_def)

lemma tinv_snoc:
  assumes "tinv trie n lab" "t < n" "s < n" "lab t = lab s @ [c]"
  shows "trie s c = Some t"
proof -
  obtain s' c' where e: "trie s' c' = Some t"
    using tinv_parent [OF assms(1,2)] assms(4) by auto
  then have "s' < n" "lab t = lab s' @ [c']"
    using tinv_edge [OF assms(1) e] by auto
  with assms show ?thesis
    using e tinv_inj [OF assms(1), of s' s] by auto
qed

lemma tinv_extend:
  assumes inv: "tinv trie n lab" and cur: "cur < n" and none: "trie cur c = None"
  shows "tinv (trie(cur := (trie cur)(c \<mapsto> n))) (Suc n) (lab(n := lab cur @ [c]))"
proof -
  let ?lab = "lab(n := lab cur @ [c])"
  have fresh: "lab t \<noteq> lab cur @ [c]" if "t < n" for t
    using tinv_snoc [OF inv that cur] none by auto
  have "inj_on ?lab {..<Suc n}"
  proof (rule inj_onI)
    fix x y assume xy: "x \<in> {..<Suc n}" "y \<in> {..<Suc n}" "?lab x = ?lab y"
    consider "x = n" "y = n" | "x = n" "y < n" | "x < n" "y = n" | "x < n" "y < n"
      using xy(1,2) by force
    then show "x = y"
    proof cases
      case 1
      then show ?thesis by simp
    next
      case 2
      then show ?thesis using xy(3) fresh [of y] by auto
    next
      case 3
      then show ?thesis using xy(3) fresh [of x] by auto
    next
      case 4
      then show ?thesis using xy(3) tinv_inj [OF inv, of x y] by auto
    qed
  qed
  moreover have "\<forall>s c' t. (trie(cur := (trie cur)(c \<mapsto> n))) s c' = Some t
      \<longrightarrow> s < Suc n \<and> t < Suc n \<and> ?lab t = ?lab s @ [c']"
  proof (intro allI impI)
    fix s c' t assume e: "(trie(cur := (trie cur)(c \<mapsto> n))) s c' = Some t"
    show "s < Suc n \<and> t < Suc n \<and> ?lab t = ?lab s @ [c']"
    proof (cases "s = cur \<and> c' = c")
      case True
      then show ?thesis using e cur by auto
    next
      case False
      then have "trie s c' = Some t" using e by (auto split: if_splits)
      then show ?thesis using tinv_edge [OF inv] by fastforce
    qed
  qed
  moreover have "\<forall>t. 0 < t \<and> t < Suc n \<longrightarrow> (\<exists>s c'. (trie(cur := (trie cur)(c \<mapsto> n))) s c' = Some t)"
  proof (intro allI impI)
    fix t assume t: "0 < t \<and> t < Suc n"
    show "\<exists>s c'. (trie(cur := (trie cur)(c \<mapsto> n))) s c' = Some t"
    proof (cases "t = n")
      case True
      then show ?thesis by (intro exI [of _ cur] exI [of _ c]) simp
    next
      case False
      with t inv obtain s c' where e: "trie s c' = Some t"
        unfolding tinv_def by (metis less_Suc_eq)
      then have "(trie(cur := (trie cur)(c \<mapsto> n))) s c' = Some t"
        using none by auto
      then show ?thesis by blast
    qed
  qed
  ultimately show ?thesis
    using inv cur unfolding tinv_def by auto
qed

lemma add_content_ok:
  assumes "tinv trie n lab" "cur < n"
    and "add_content tt bs (trie, n, out, cur) = (trie', n', out', cur')"
  shows "\<exists>lab'. tinv trie' n' lab' \<and> (\<forall>s<n. lab' s = lab s) \<and> n \<le> n' \<and> cur' < n' \<and>
     lab' cur' = lab cur @ map (\<lambda>b. tt (toLower b)) bs \<and> out' = out @ replicate (n' - n) []"
  using assms
proof (induction bs arbitrary: trie n out cur lab)
  case Nil
  then show ?case by auto
next
  case (Cons b bs)
  let ?tc = "tt (toLower b)"
  show ?case
  proof (cases "trie cur ?tc")
    case (Some nxt)
    then have step: "add_content tt bs (trie, n, out, nxt) = (trie', n', out', cur')"
      using Cons.prems(3) by simp
    have nx: "nxt < n" "lab nxt = lab cur @ [?tc]"
      using tinv_edge [OF Cons.prems(1) Some] by auto
    from Cons.IH [OF Cons.prems(1) nx(1) step] nx(2) show ?thesis
      by auto
  next
    case None
    let ?trie = "trie(cur := (trie cur)(?tc \<mapsto> n))"
    let ?lab = "lab(n := lab cur @ [?tc])"
    have step: "add_content tt bs (?trie, Suc n, out @ [[]], n) = (trie', n', out', cur')"
      using Cons.prems(3) None by simp
    have inv: "tinv ?trie (Suc n) ?lab"
      by (rule tinv_extend [OF Cons.prems(1,2) None])
    from Cons.IH [OF inv _ step] obtain lab' where l: "tinv trie' n' lab'"
      "\<forall>s<Suc n. lab' s = ?lab s" "Suc n \<le> n'" "cur' < n'"
      "lab' cur' = ?lab n @ map (\<lambda>b. tt (toLower b)) bs"
      "out' = (out @ [[]]) @ replicate (n' - Suc n) []"
      by auto
    have "replicate (n' - n) ([]::nat list) = [] # replicate (n' - Suc n) []"
      using l(3) by (cases "n' - n") (auto simp: Suc_diff_Suc)
    with l show ?thesis
      by (intro exI [of _ lab']) auto
  qed
qed

lemma own_snoc: "own (ws @ [w]) v = own ws v @ (if w = v then [length ws] else [])"
  by (auto simp: own_def nth_append intro: filter_cong)

lemma build_trie_ok:
  assumes "trie_ok (map (symbols tt) qs) trie n out lab" "k = length qs"
  shows "\<exists>trie' n' out' lab'. build_trie tt k ps (trie, n, out) = Some (trie', n', out') \<and>
     trie_ok (map (symbols tt) (qs @ ps)) trie' n' out' lab'"
  using assms
proof (induction ps arbitrary: qs trie n out lab k)
  case Nil
  then show ?case by auto
next
  case (Cons p ps)
  let ?ws = "map (symbols tt) qs"
  have inv: "tinv trie n lab" and len: "length out = n"
    and outs: "\<forall>s<n. out ! s = own ?ws (lab s)"
    and labelled: "\<forall>k<length ?ws. \<exists>s<n. lab s = ?ws ! k"
    using Cons.prems(1) by (auto simp: trie_ok_def)
  have n0: "0 < n" and lab0: "lab 0 = []"
    using inv by (auto simp: tinv_def)
  obtain trie1 n1 out1 cur where ac: "add_content tt (Content p) (trie, n, out, 0) = (trie1, n1, out1, cur)"
    by (metis prod_cases4)
  from add_content_ok [OF inv n0 ac] lab0 obtain lab1 where l: "tinv trie1 n1 lab1"
    "\<forall>s<n. lab1 s = lab s" "n \<le> n1" "cur < n1" "lab1 cur = symbols tt p"
    "out1 = out @ replicate (n1 - n) []"
    by (auto simp: symbols_def)
  have len1: "length out1 = n1"
    using l(3,6) len by simp
  let ?out2 = "out1[cur := out1 ! cur @ [k]]"
  have step: "build_trie tt k (p # ps) (trie, n, out) = build_trie tt (k + 1) ps (trie1, n1, ?out2)"
    using ac l(4) len1 by (simp add: index_def)
  have old: "out1 ! s = own ?ws (lab1 s)" if "s < n1" for s
  proof (cases "s < n")
    case True
    then show ?thesis using outs l(2,6) len by (simp add: nth_append)
  next
    case False
    have "?ws ! j \<noteq> lab1 s" if j: "j < length ?ws" for j
    proof -
      obtain s' where "s' < n" "lab s' = ?ws ! j"
        using labelled j by blast
      then show ?thesis
        using tinv_inj [OF l(1), of s s'] l(2,3) \<open>s < n1\<close> False by auto
    qed
    then have "own ?ws (lab1 s) = []"
      by (auto simp: own_def filter_empty_conv)
    moreover have "out1 ! s = []"
      using False that l(6) len by (simp add: nth_append)
    ultimately show ?thesis by simp
  qed
  have "trie_ok (map (symbols tt) (qs @ [p])) trie1 n1 ?out2 lab1"
    unfolding trie_ok_def
  proof (intro conjI allI impI)
    show "tinv trie1 n1 lab1" by (rule l(1))
    show "length ?out2 = n1" using len1 by simp
  next
    fix s assume s: "s < n1"
    show "?out2 ! s = own (map (symbols tt) (qs @ [p])) (lab1 s)"
    proof (cases "s = cur")
      case True
      then show ?thesis
        using old [OF s] s len1 l(5) Cons.prems(2) by (simp add: own_snoc)
    next
      case False
      then have "lab1 s \<noteq> symbols tt p"
        using tinv_inj [OF l(1) s l(4)] l(5) by auto
      then show ?thesis
        using old [OF s] False by (simp add: own_snoc)
    qed
  next
    fix j assume j: "j < length (map (symbols tt) (qs @ [p]))"
    show "\<exists>s<n1. lab1 s = map (symbols tt) (qs @ [p]) ! j"
    proof (cases "j < length qs")
      case True
      then obtain s where "s < n" "lab s = ?ws ! j"
        using labelled by auto
      then show ?thesis
        using l(2,3) True by (intro exI [of _ s]) (auto simp: nth_append)
    next
      case False
      then have "j = length qs" using j by simp
      then show ?thesis
        using l(4,5) by (intro exI [of _ cur]) (simp add: nth_append)
    qed
  qed
  from Cons.IH [OF this, of "k + 1"] Cons.prems(2) show ?case
    unfolding step by simp
qed

lemma trie_ok_init: "trie_ok [] (\<lambda>_ _. None) 1 [[]] (\<lambda>_. [])"
  by (auto simp: trie_ok_def tinv_def own_def inj_on_def)

lemma build_trie_total:
  "\<exists>trie n out lab. build_trie tt 0 ps (\<lambda>_ _. None, 1, [[]]) = Some (trie, n, out) \<and>
     trie_ok (map (symbols tt) ps) trie n out lab"
  using build_trie_ok [OF _ refl, of tt "[]" "\<lambda>_ _. None" 1 "[[]]" "\<lambda>_. []" ps] trie_ok_init
  by simp

lemma strict_suffix_iff: "strict_suffix xs ys \<longleftrightarrow> suffix xs ys \<and> xs \<noteq> ys"
  by (auto simp: strict_suffix_def suffix_def)

lemma tinv_snoc_parent:
  assumes "tinv trie n lab" "t < n" "lab t = y @ [c]"
  shows "\<exists>s<n. lab s = y \<and> trie s c = Some t"
proof -
  obtain s c' where e: "trie s c' = Some t"
    using tinv_parent [OF assms(1,2)] assms(3) by auto
  from tinv_edge [OF assms(1) e] assms(3) e show ?thesis by auto
qed

lemma lsl_edge:
  assumes "tinv trie n lab" "trie s c = Some v"
  shows "is_lsl lab n (lab s @ [c]) v"
  using tinv_edge [OF assms] by (simp add: is_lsl_def)

lemma lsl_root:
  assumes inv: "tinv trie n lab" and none: "trie 0 c = None"
  shows "is_lsl lab n (lab 0 @ [c]) 0"
proof -
  have lab0: "lab 0 = []" and n0: "0 < n"
    using inv by (auto simp: tinv_def)
  have "lab t' = []" if t': "t' < n" "suffix (lab t') [c]" for t'
  proof (rule ccontr)
    assume "lab t' \<noteq> []"
    then have "lab t' = [] @ [c]"
      using t'(2) by (auto simp: suffix_def Cons_eq_append_conv)
    then obtain s where "s < n" "lab s = []" "trie s c = Some t'"
      using tinv_snoc_parent [OF inv t'(1)] by blast
    then show False
      using tinv_inj [OF inv, of s 0] lab0 n0 none by auto
  qed
  then show ?thesis
    using lab0 n0 by (auto simp: is_lsl_def)
qed

lemma lsl_follow:
  assumes inv: "tinv trie n lab" and s: "s < n" and none: "trie s c = None"
    and fail: "is_fail lab n s f" and lsl: "is_lsl lab n (lab f @ [c]) t"
  shows "is_lsl lab n (lab s @ [c]) t"
proof -
  have f: "suffix (lab f) (lab s)"
    using fail by (simp add: is_fail_def strict_suffix_iff)
  have "suffix (lab t) (lab s @ [c])"
    using lsl f by (auto simp: is_lsl_def suffix_def)
  moreover have "suffix (lab t') (lab t)" if t': "t' < n" "suffix (lab t') (lab s @ [c])" for t'
  proof (cases "lab t' = []")
    case True
    then show ?thesis by simp
  next
    case False
    then obtain y where y: "lab t' = y @ [c]" "suffix y (lab s)"
      using t'(2) by auto
    then obtain s' where s': "s' < n" "lab s' = y" "trie s' c = Some t'"
      using tinv_snoc_parent [OF inv t'(1)] by blast
    have "s' \<noteq> s" using s' none by auto
    then have "lab s' \<noteq> lab s"
      using tinv_inj [OF inv s'(1) s] by auto
    then have "strict_suffix (lab s') (lab s)"
      using y s' by (simp add: strict_suffix_iff)
    then have "suffix y (lab f)"
      using fail s' by (auto simp: is_fail_def)
    then have "suffix (lab t') (lab f @ [c])"
      using y by simp
    then show ?thesis
      using lsl t'(1) by (auto simp: is_lsl_def)
  qed
  ultimately show ?thesis
    using lsl by (auto simp: is_lsl_def)
qed

lemma walk_failure_lsl:
  assumes inv: "tinv trie n lab"
  shows "f < n \<Longrightarrow>
     (\<forall>s<n. s \<noteq> 0 \<and> suffix (lab s) (lab f) \<longrightarrow> s < length failure \<and> is_fail lab n s (failure ! s)) \<Longrightarrow>
     \<exists>t. walk_failure trie failure c f = Some t \<and> is_lsl lab n (lab f @ [c]) t"
proof (induction "length (lab f)" arbitrary: f rule: less_induct)
  case less
  show ?case
  proof (cases "trie f c")
    case (Some val)
    then have "walk_failure trie failure c f = Some val"
      by (subst walk_failure.simps) simp
    then show ?thesis
      using lsl_edge [OF inv Some] by simp
  next
    case None
    show ?thesis
    proof (cases "f = 0")
      case True
      then have "walk_failure trie failure c f = Some 0"
        using None by (subst walk_failure.simps) simp
      then show ?thesis
        using lsl_root [OF inv] None True by simp
    next
      case False
      let ?f = "failure ! f"
      have ff: "f < length failure" "is_fail lab n f ?f"
        using less.prems False by auto
      then have f': "?f < n" "strict_suffix (lab ?f) (lab f)"
        by (auto simp: is_fail_def)
      have pre: "\<forall>s<n. s \<noteq> 0 \<and> suffix (lab s) (lab ?f) \<longrightarrow> s < length failure \<and> is_fail lab n s (failure ! s)"
        using less.prems(2) f'(2) by (meson strict_suffix_iff suffix_order.trans)
      from less.hyps [OF suffix_length_less [OF f'(2)] f'(1) pre]
      obtain t where t: "walk_failure trie failure c ?f = Some t" "is_lsl lab n (lab ?f @ [c]) t"
        by blast
      have "walk_failure trie failure c f = Some t"
        using None False ff(1) t(1) by (subst walk_failure.simps) (simp add: index_def)
      then show ?thesis
        using lsl_follow [OF inv less.prems(1) None ff(2) t(2)] by simp
    qed
  qed
qed

lemma fail_root_child:
  assumes inv: "tinv trie n lab" and e: "trie 0 c = Some t"
  shows "is_fail lab n t 0"
proof -
  have "lab 0 = []" "0 < n" using inv by (auto simp: tinv_def)
  moreover have "lab t = [c]"
    using tinv_edge [OF inv e] calculation by simp
  ultimately show ?thesis
    by (auto simp: is_fail_def strict_suffix_iff suffix_def Cons_eq_append_conv)
qed

lemma fail_child:
  assumes inv: "tinv trie n lab" and e: "trie r c = Some t"
    and fail: "is_fail lab n r f" and lsl: "is_lsl lab n (lab f @ [c]) v"
  shows "is_fail lab n t v"
proof -
  have t: "t < n" "lab t = lab r @ [c]" "r < n"
    using tinv_edge [OF inv e] by auto
  have f: "strict_suffix (lab f) (lab r)"
    using fail by (simp add: is_fail_def)
  have v: "v < n" "suffix (lab v) (lab f @ [c])"
    using lsl by (auto simp: is_lsl_def)
  have "length (lab v) \<le> length (lab f) + 1"
    using suffix_length_le [OF v(2)] by simp
  then have "length (lab v) < length (lab t)"
    using suffix_length_less [OF f] t(2) by simp
  moreover have "suffix (lab v) (lab t)"
    using v(2) f t(2) by (auto simp: suffix_def strict_suffix_iff)
  ultimately have "strict_suffix (lab v) (lab t)"
    by (auto simp: strict_suffix_iff)
  moreover have "suffix (lab t') (lab v)" if t': "t' < n" "strict_suffix (lab t') (lab t)" for t'
  proof (cases "lab t' = []")
    case True
    then show ?thesis by simp
  next
    case False
    then obtain y where y: "lab t' = y @ [c]" "suffix y (lab r)"
      using t'(2) t(2) by (auto simp: strict_suffix_iff)
    then obtain s' where s': "s' < n" "lab s' = y" "trie s' c = Some t'"
      using tinv_snoc_parent [OF inv t'(1)] by blast
    have "y \<noteq> lab r"
      using t'(2) t(2) y by (auto simp: strict_suffix_iff)
    then have "strict_suffix (lab s') (lab r)"
      using y s' by (simp add: strict_suffix_iff)
    then have "suffix y (lab f)"
      using fail s' by (auto simp: is_fail_def)
    then have "suffix (lab t') (lab f @ [c])"
      using y by simp
    then show ?thesis
      using lsl t'(1) by (auto simp: is_lsl_def)
  qed
  ultimately show ?thesis
    using v(1) by (auto simp: is_fail_def)
qed

lemma lsl_extend:
  assumes inv: "tinv trie n lab" and s: "is_lsl lab n u s" and t: "is_lsl lab n (lab s @ [c]) t"
  shows "is_lsl lab n (u @ [c]) t"
proof -
  have "suffix (lab t) (u @ [c])"
    using s t by (auto simp: is_lsl_def suffix_def)
  moreover have "suffix (lab t') (lab t)" if t': "t' < n" "suffix (lab t') (u @ [c])" for t'
  proof (cases "lab t' = []")
    case True
    then show ?thesis by simp
  next
    case False
    then obtain y where y: "lab t' = y @ [c]" "suffix y u"
      using t'(2) by auto
    then obtain s' where s': "s' < n" "lab s' = y" "trie s' c = Some t'"
      using tinv_snoc_parent [OF inv t'(1)] by blast
    then have "suffix y (lab s)"
      using s y by (auto simp: is_lsl_def)
    then have "suffix (lab t') (lab s @ [c])"
      using y by simp
    then show ?thesis
      using t t'(1) by (auto simp: is_lsl_def)
  qed
  ultimately show ?thesis
    using t by (auto simp: is_lsl_def)
qed

lemma kids_simps:
  "kids trie s [] = []"
  "kids trie s (c # cs) = (case trie s c of None \<Rightarrow> kids trie s cs | Some t \<Rightarrow> t # kids trie s cs)"
  by (simp_all add: kids_def map_filter_simps split: option.splits)

lemma set_kids: "set (kids trie s cs) = {t. \<exists>c\<in>set cs. trie s c = Some t}"
  by (induction cs) (auto simp: kids_simps split: option.splits)

lemma own_set: "set (own ws v) = {k. k < length ws \<and> ws ! k = v}"
  by (auto simp: own_def)

lemma own_empty: "[] \<notin> set ws \<Longrightarrow> own ws [] = []"
  by (auto simp: own_def filter_empty_conv in_set_conv_nth)

lemma own_label:
  "labelled ws n lab \<Longrightarrow> own ws x \<noteq> [] \<Longrightarrow> \<exists>s<n. lab s = x"
  by (auto simp: labelled_def own_def filter_empty_conv)

lemma out_spec_skip:
  "suffix v u \<Longrightarrow> (\<forall>x. suffix x u \<and> length v < length x \<longrightarrow> own ws x = []) \<Longrightarrow>
     out_spec ws u = out_spec ws v"
proof (induction u)
  case Nil
  then show ?case by simp
next
  case (Cons a u)
  show ?case
  proof (cases "v = a # u")
    case True
    then show ?thesis by simp
  next
    case False
    then have v: "suffix v u"
      using Cons.prems(1) by (simp add: suffix_Cons)
    then have "length v < length (a # u)"
      using suffix_length_le [OF v] by simp
    then have "own ws (a # u) = []"
      using Cons.prems(2) by blast
    moreover have "out_spec ws u = out_spec ws v"
      using Cons.IH [OF v] Cons.prems(2) by (simp add: suffix_ConsI)
    ultimately show ?thesis by simp
  qed
qed

lemma out_spec_lsl:
  assumes "labelled ws n lab" "is_lsl lab n u t"
  shows "out_spec ws u = out_spec ws (lab t)"
proof (rule out_spec_skip)
  show "suffix (lab t) u" using assms(2) by (simp add: is_lsl_def)
  show "\<forall>x. suffix x u \<and> length (lab t) < length x \<longrightarrow> own ws x = []"
  proof (intro allI impI, rule ccontr)
    fix x assume x: "suffix x u \<and> length (lab t) < length x" and "own ws x \<noteq> []"
    then obtain s where "s < n" "lab s = x"
      using own_label [OF assms(1)] by blast
    then have "suffix x (lab t)"
      using assms(2) x by (auto simp: is_lsl_def)
    then show False
      using suffix_length_le x by fastforce
  qed
qed

lemma out_spec_fail:
  assumes lb: "labelled ws n lab" and fail: "is_fail lab n t f"
  shows "out_spec ws (lab t) = own ws (lab t) @ out_spec ws (lab f)"
proof -
  have ss: "strict_suffix (lab f) (lab t)"
    using fail by (simp add: is_fail_def)
  then obtain a rest where t: "lab t = a # rest"
    by (cases "lab t") (auto simp: strict_suffix_iff)
  have f: "suffix (lab f) rest"
    using ss t by (auto simp: strict_suffix_iff suffix_Cons)
  have "out_spec ws rest = out_spec ws (lab f)"
  proof (rule out_spec_skip [OF f], intro allI impI, rule ccontr)
    fix x assume x: "suffix x rest \<and> length (lab f) < length x" and "own ws x \<noteq> []"
    then obtain s where s: "s < n" "lab s = x"
      using own_label [OF lb] by blast
    have "strict_suffix x (lab t)"
      using x t suffix_length_le [of x rest] by (auto simp: strict_suffix_iff suffix_Cons)
    then have "suffix x (lab f)"
      using fail s by (auto simp: is_fail_def)
    then show False
      using suffix_length_le x by fastforce
  qed
  then show ?thesis by (simp add: t)
qed

lemma link_state_ok:
  assumes inv: "tinv trie n lab" and lb: "labelled ws n lab"
    and ok: "links_ok n lab ws A failure out"
    and r: "r \<in> A" "r \<noteq> 0" and e: "trie r c = Some t" and fresh: "t \<notin> A"
    and closed: "\<forall>x<n. length (lab x) \<le> length (lab r) \<longrightarrow> x \<in> A"
  shows "\<exists>failure' out'. link_state trie r c t (queue, failure, out) = Some (queue @ [t], failure', out')
     \<and> links_ok n lab ws (insert t A) failure' out'"
proof -
  have len: "length failure = n" "length out = n" and A: "0 \<in> A" "A \<subseteq> {..<n}"
    and fails: "\<forall>s\<in>A. s \<noteq> 0 \<longrightarrow> is_fail lab n s (failure ! s)"
    and sound: "\<forall>s<n. \<forall>k\<in>set (out ! s). k < length ws \<and> suffix (ws ! k) (lab s)"
    and owns: "\<forall>s<n. s \<notin> A \<or> s = 0 \<longrightarrow> out ! s = own ws (lab s)"
    and exact: "[] \<notin> set ws \<longrightarrow> (\<forall>s\<in>A. out ! s = out_spec ws (lab s))"
    using ok by (auto simp: links_ok_def)
  have compl: "\<forall>s\<in>A. \<forall>k<length ws. ws ! k \<noteq> [] \<and> suffix (ws ! k) (lab s) \<longrightarrow> k \<in> set (out ! s)"
    using ok unfolding links_ok_def by (elim conjE)
  have rn: "r < n" and tn: "t < n" and labt: "lab t = lab r @ [c]"
    using tinv_edge [OF inv e] by auto
  let ?f = "failure ! r"
  have fr: "is_fail lab n r ?f"
    using fails r by auto
  then have f: "?f < n" "strict_suffix (lab ?f) (lab r)"
    by (auto simp: is_fail_def)
  have pre: "\<forall>s<n. s \<noteq> 0 \<and> suffix (lab s) (lab ?f) \<longrightarrow> s < length failure \<and> is_fail lab n s (failure ! s)"
  proof (intro allI impI)
    fix s assume s: "s < n" "s \<noteq> 0 \<and> suffix (lab s) (lab ?f)"
    then have "length (lab s) \<le> length (lab r)"
      using suffix_length_le [of "lab s" "lab ?f"] suffix_length_less [OF f(2)] by simp
    then have "s \<in> A" using closed s(1) by blast
    then show "s < length failure \<and> is_fail lab n s (failure ! s)"
      using fails s len by auto
  qed
  from walk_failure_lsl [OF inv f(1) pre, of c]
  obtain v where v: "walk_failure trie failure c ?f = Some v" "is_lsl lab n (lab ?f @ [c]) v"
    by blast
  have tv: "is_fail lab n t v"
    by (rule fail_child [OF inv e fr v(2)])
  then have vn: "v < n" and vs: "strict_suffix (lab v) (lab t)"
    by (auto simp: is_fail_def)
  have "length (lab v) \<le> length (lab r)"
    using suffix_length_less [OF vs] labt by simp
  then have vA: "v \<in> A" using closed vn by blast
  then have vt: "v \<noteq> t" using fresh by auto
  let ?failure = "failure[t := v]" and ?out = "out[t := out ! t @ out ! v]"
  have run: "link_state trie r c t (queue, failure, out) = Some (queue @ [t], ?failure, ?out)"
    using v(1) rn tn vn len by (simp add: link_state_def index_def assign_def)
  have outt: "out ! t = own ws (lab t)"
    using owns tn fresh by auto
  have "links_ok n lab ws (insert t A) ?failure ?out"
    unfolding links_ok_def
  proof (intro conjI)
    show "length ?failure = n" "length ?out = n" "0 \<in> insert t A" "insert t A \<subseteq> {..<n}"
      using len A tn by auto
    show "\<forall>s\<in>insert t A. s \<noteq> 0 \<longrightarrow> is_fail lab n s (?failure ! s)"
      using fails tv tn len fresh by (auto simp: nth_list_update)
    show "\<forall>s<n. \<forall>k\<in>set (?out ! s). k < length ws \<and> suffix (ws ! k) (lab s)"
    proof (intro allI impI ballI)
      fix s k assume s: "s < n" and k: "k \<in> set (?out ! s)"
      show "k < length ws \<and> suffix (ws ! k) (lab s)"
      proof (cases "s = t")
        case False
        then show ?thesis using sound s k by simp
      next
        case True
        then have "k \<in> set (out ! t) \<or> k \<in> set (out ! v)"
          using k tn len by auto
        then show ?thesis
        proof
          assume "k \<in> set (out ! t)"
          then show ?thesis using sound tn True by blast
        next
          assume "k \<in> set (out ! v)"
          then have "k < length ws \<and> suffix (ws ! k) (lab v)"
            using sound vn by blast
          then show ?thesis
            using vs True by (auto simp: strict_suffix_iff intro: suffix_order.trans)
        qed
      qed
    qed
    show "\<forall>s<n. s \<notin> insert t A \<or> s = 0 \<longrightarrow> ?out ! s = own ws (lab s)"
    proof (intro allI impI)
      fix s assume s: "s < n" "s \<notin> insert t A \<or> s = 0"
      then have "s \<noteq> t" using A fresh by auto
      then show "?out ! s = own ws (lab s)" using owns s by auto
    qed
    show "[] \<notin> set ws \<longrightarrow> (\<forall>s\<in>insert t A. ?out ! s = out_spec ws (lab s))"
    proof (intro impI ballI)
      fix s assume ne: "[] \<notin> set ws" and s: "s \<in> insert t A"
      show "?out ! s = out_spec ws (lab s)"
      proof (cases "s = t")
        case True
        have "out ! v = out_spec ws (lab v)"
          using exact ne vA by blast
        then show ?thesis
          using True tn len outt out_spec_fail [OF lb tv] by simp
      next
        case False
        then show ?thesis using exact ne s by auto
      qed
    qed
    show "\<forall>s\<in>insert t A. \<forall>k<length ws. ws ! k \<noteq> [] \<and> suffix (ws ! k) (lab s) \<longrightarrow> k \<in> set (?out ! s)"
    proof (intro ballI allI impI)
      fix s k assume s: "s \<in> insert t A" and k: "k < length ws"
        and w: "ws ! k \<noteq> [] \<and> suffix (ws ! k) (lab s)"
      show "k \<in> set (?out ! s)"
      proof (cases "s = t")
        case False
        then have "k \<in> set (out ! s)" using compl s k w by blast
        then show ?thesis using False by simp
      next
        case True
        have ot: "?out ! t = own ws (lab t) @ out ! v"
          using tn len outt by simp
        show ?thesis
        proof (cases "ws ! k = lab t")
          case True
          then have "k \<in> set (own ws (lab t))" using k by (simp add: own_set)
          then show ?thesis using ot \<open>s = t\<close> by simp
        next
          case False
          then have ss: "strict_suffix (ws ! k) (lab t)"
            using w \<open>s = t\<close> by (simp add: strict_suffix_iff)
          obtain s' where s': "s' < n" "lab s' = ws ! k"
            using lb k unfolding labelled_def by blast
          have "suffix (lab s') (lab v)"
            using tv s'(1) ss [folded s'(2)] unfolding is_fail_def by blast
          then have "k \<in> set (out ! v)"
            using compl vA k w s'(2) by auto
          then show ?thesis using ot \<open>s = t\<close> by simp
        qed
      qed
    qed
  qed
  with run show ?thesis by blast
qed

lemma root_links_run:
  assumes inv: "tinv trie n lab"
  shows "root_links trie cs (queue, replicate n 0) = Some (queue @ kids trie 0 cs, replicate n 0)"
proof (induction cs arbitrary: queue)
  case Nil
  then show ?case by (simp add: kids_simps)
next
  case (Cons c cs)
  show ?case
  proof (cases "trie 0 c")
    case None
    then show ?thesis using Cons.IH by (simp add: kids_simps)
  next
    case (Some t)
    then have "t < n" using tinv_edge [OF inv Some] by simp
    then have "assign (replicate n 0) t 0 = Some (replicate n (0::nat))"
      by (simp add: assign_def list_update_same_conv)
    then show ?thesis using Some Cons.IH by (simp add: kids_simps)
  qed
qed

lemma visit_edges_ok:
  assumes inv: "tinv trie n lab" and lb: "labelled ws n lab"
  shows "links_ok n lab ws A failure out \<Longrightarrow> r \<in> A \<Longrightarrow> r \<noteq> 0 \<Longrightarrow>
     \<forall>x<n. length (lab x) \<le> length (lab r) \<longrightarrow> x \<in> A \<Longrightarrow> distinct cs \<Longrightarrow>
     \<forall>c\<in>set cs. \<forall>t. trie r c = Some t \<longrightarrow> t \<notin> A \<Longrightarrow>
     \<exists>failure' out'. visit_edges trie r cs (queue, failure, out)
         = Some (queue @ kids trie r cs, failure', out')
       \<and> links_ok n lab ws (A \<union> set (kids trie r cs)) failure' out'"
proof (induction cs arbitrary: A failure out queue)
  case Nil
  then show ?case by (simp add: kids_simps)
next
  case (Cons c cs)
  show ?case
  proof (cases "trie r c")
    case None
    then show ?thesis
      using Cons.IH [OF Cons.prems(1-4), of queue] Cons.prems(5,6) by (simp add: kids_simps)
  next
    case (Some t)
    have fresh: "t \<notin> A" using Cons.prems(6) Some by simp
    from link_state_ok [OF inv lb Cons.prems(1,2,3) Some fresh Cons.prems(4), of queue]
    obtain failure1 out1 where step: "link_state trie r c t (queue, failure, out) = Some (queue @ [t], failure1, out1)"
      and ok1: "links_ok n lab ws (insert t A) failure1 out1"
      by blast
    have fresh': "\<forall>c'\<in>set cs. \<forall>t'. trie r c' = Some t' \<longrightarrow> t' \<notin> insert t A"
    proof (intro ballI allI impI)
      fix c' t' assume c': "c' \<in> set cs" and e': "trie r c' = Some t'"
      have "c' \<noteq> c" using c' Cons.prems(5) by auto
      then have "lab t' \<noteq> lab t"
        using tinv_edge [OF inv e'] tinv_edge [OF inv Some] by simp
      then show "t' \<notin> insert t A"
        using Cons.prems(6) c' e' by auto
    qed
    from Cons.IH [OF ok1 _ Cons.prems(3) _ _ fresh', of "queue @ [t]"] Cons.prems(2,4,5)
    obtain failure' out' where rest: "visit_edges trie r cs (queue @ [t], failure1, out1)
         = Some ((queue @ [t]) @ kids trie r cs, failure', out')"
      and ok': "links_ok n lab ws (insert t A \<union> set (kids trie r cs)) failure' out'"
      by auto
    show ?thesis
      using Some step rest ok' by (simp add: kids_simps)
  qed
qed

lemma link_state_out:
  "link_state trie r c t (queue, failure, out) = Some (q', f', out') \<Longrightarrow> \<exists>v. out' = out[t := v]"
  by (auto simp: link_state_def split: option.splits)

lemma visit_edges_shallow:
  assumes inv: "tinv trie n lab" and r: "r < n" "r \<noteq> 0"
  shows "visit_edges trie r cs (queue, failure, out) = Some (q', f', out') \<Longrightarrow>
     shallow_own ws n lab out \<Longrightarrow> shallow_own ws n lab out'"
proof (induction cs arbitrary: queue failure out)
  case Nil
  then show ?case by simp
next
  case (Cons c cs)
  show ?case
  proof (cases "trie r c")
    case None
    then show ?thesis using Cons by simp
  next
    case (Some t)
    then obtain q1 f1 o1 where ls: "link_state trie r c t (queue, failure, out) = Some (q1, f1, o1)"
      and rest: "visit_edges trie r cs (q1, f1, o1) = Some (q', f', out')"
      using Cons.prems(1) by (auto split: option.splits)
    from link_state_out [OF ls] obtain v where o1: "o1 = out[t := v]" ..
    have "lab r \<noteq> []"
      using inv r by (auto simp: tinv_def inj_on_def)
    then have deep: "\<not> length (lab t) \<le> 1"
      using tinv_edge [OF inv Some] by (cases "lab r") simp_all
    have "shallow_own ws n lab o1"
      unfolding shallow_own_def
    proof (intro allI impI)
      fix s assume "s < n" "length (lab s) \<le> 1"
      moreover from this deep have "s \<noteq> t" by auto
      ultimately show "o1 ! s = own ws (lab s)"
        using Cons.prems(2) unfolding o1 shallow_own_def by simp
    qed
    from Cons.IH [OF rest this] show ?thesis .
  qed
qed

lemma tinv_root: "tinv trie n lab \<Longrightarrow> x < n \<Longrightarrow> lab x = [] \<Longrightarrow> x = 0"
  using tinv_inj [of trie n lab x 0] by (auto simp: tinv_def)

lemma tinv_edge_nonroot:
  assumes "tinv trie n lab" "trie s c = Some t"
  shows "t \<noteq> 0"
proof
  assume "t = 0"
  moreover have "lab 0 = []" using assms(1) by (simp add: tinv_def)
  ultimately show False using tinv_edge [OF assms] by simp
qed

lemma tinv_parent_edge:
  assumes "tinv trie n lab" "x < n" "lab x \<noteq> []"
  shows "\<exists>s c. trie s c = Some x \<and> s < n \<and> length (lab x) = Suc (length (lab s))"
proof -
  obtain s c where e: "trie s c = Some x"
    using tinv_parent [OF assms] by blast
  with tinv_edge [OF assms(1) e] show ?thesis by auto
qed

lemma bfs_below:
  assumes inv: "tinv trie n lab"
    and cover: "D \<union> set (r # rest) = insert 0 (children trie D)" and root: "0 \<in> D"
    and srt: "sorted (map (\<lambda>s. length (lab s)) (r # rest))"
  shows "x < n \<Longrightarrow> length (lab x) < length (lab r) \<Longrightarrow> x \<in> D"
proof (induction "length (lab x)" arbitrary: x rule: less_induct)
  case less
  show ?case
  proof (cases "lab x = []")
    case True
    then show ?thesis using tinv_root [OF inv less.prems(1)] root by simp
  next
    case False
    then obtain s c where e: "trie s c = Some x" "s < n" "length (lab x) = Suc (length (lab s))"
      using tinv_parent_edge [OF inv less.prems(1)] by blast
    then have "s \<in> D"
      using less.hyps [of s] less.prems(2) by simp
    then have "x \<in> insert 0 (children trie D)"
      using e(1) by (auto simp: children_def)
    then have "x \<in> D \<or> x \<in> set (r # rest)"
      using cover by blast
    moreover have "length (lab r) \<le> length (lab x)" if "x \<in> set (r # rest)"
      using srt that by auto
    ultimately show ?thesis using less.prems(2) by auto
  qed
qed

lemma bfs_level:
  assumes inv: "tinv trie n lab"
    and cover: "D \<union> set (r # rest) = insert 0 (children trie D)" and root: "0 \<in> D"
    and srt: "sorted (map (\<lambda>s. length (lab s)) (r # rest))"
    and x: "x < n" "length (lab x) \<le> length (lab r)"
  shows "x \<in> D \<union> set (r # rest)"
proof (cases "lab x = []")
  case True
  then show ?thesis using tinv_root [OF inv x(1)] root by simp
next
  case False
  then obtain s c where e: "trie s c = Some x" "s < n" "length (lab x) = Suc (length (lab s))"
    using tinv_parent_edge [OF inv x(1)] by blast
  then have "s \<in> D"
    using bfs_below [OF inv cover root srt, of s] x(2) by simp
  then have "x \<in> insert 0 (children trie D)"
    using e(1) by (auto simp: children_def)
  then show ?thesis using cover by blast
qed

lemma bfs_all:
  assumes inv: "tinv trie n lab" and cover: "D = insert 0 (children trie D)"
  shows "x < n \<Longrightarrow> x \<in> D"
proof (induction "length (lab x)" arbitrary: x rule: less_induct)
  case less
  show ?case
  proof (cases "lab x = []")
    case True
    then show ?thesis using tinv_root [OF inv less.prems] cover by auto
  next
    case False
    then obtain s c where e: "trie s c = Some x" "s < n" "length (lab x) = Suc (length (lab s))"
      using tinv_parent_edge [OF inv less.prems] by blast
    then have "s \<in> D" using less.hyps [of s] by simp
    then have "x \<in> insert 0 (children trie D)"
      using e(1) by (auto simp: children_def)
    then show ?thesis using cover by simp
  qed
qed

lemma distinct_kids:
  assumes inv: "tinv trie n lab" and "distinct cs"
  shows "distinct (kids trie r cs)"
  using assms(2)
proof (induction cs)
  case Nil
  then show ?case by (simp add: kids_simps)
next
  case (Cons c cs)
  show ?case
  proof (cases "trie r c")
    case None
    then show ?thesis using Cons by (simp add: kids_simps)
  next
    case (Some t)
    have "t \<notin> set (kids trie r cs)"
    proof
      assume "t \<in> set (kids trie r cs)"
      then obtain c' where c': "c' \<in> set cs" "trie r c' = Some t"
        by (auto simp: set_kids)
      then show False
        using tinv_edge [OF inv Some] tinv_edge [OF inv c'(2)] Cons.prems by auto
    qed
    then show ?thesis using Some Cons by (simp add: kids_simps)
  qed
qed

lemma sorted_const: "\<forall>x\<in>set xs. f x = (k::nat) \<Longrightarrow> sorted (map f xs)"
  by (induction xs) auto

lemma bfs_inv_links:
  "bfs_inv trie n lab ws D queue failure out \<Longrightarrow> links_ok n lab ws (D \<union> set queue) failure out"
  unfolding bfs_inv_def by (rule conjunct1)

lemma links_ok_bound: "links_ok n lab ws A failure out \<Longrightarrow> A \<subseteq> {..<n}"
  unfolding links_ok_def by (elim conjE)

lemma bfs_step:
  assumes inv: "tinv trie n lab" and lb: "labelled ws n lab" and ko: "key_order ord"
    and bi: "bfs_inv trie n lab ws D (r # rest) failure out"
  shows "\<exists>queue' failure' out'. visit_edges trie r (ord r) (rest, failure, out) = Some (queue', failure', out')
     \<and> bfs_inv trie n lab ws (insert r D) queue' failure' out' \<and> r \<notin> D \<and> r < n"
proof -
  let ?A = "D \<union> set (r # rest)"
  let ?depth = "\<lambda>s. length (lab s)"
  note b1 = bi [unfolded bfs_inv_def]
  note b2 = b1 [THEN conjunct2]
  note b3 = b2 [THEN conjunct2]
  note b4 = b3 [THEN conjunct2]
  note b5 = b4 [THEN conjunct2]
  note b6 = b5 [THEN conjunct2]
  have ok: "links_ok n lab ws ?A failure out" by (rule b1 [THEN conjunct1])
  have root: "0 \<in> D" by (rule b2 [THEN conjunct1])
  have dq: "distinct (r # rest)" by (rule b3 [THEN conjunct1])
  have disj: "D \<inter> set (r # rest) = {}" by (rule b4 [THEN conjunct1])
  have cover: "?A = insert 0 (children trie D)" by (rule b5 [THEN conjunct1])
  have srt: "sorted (map ?depth (r # rest))" by (rule b6 [THEN conjunct1])
  obtain d where d: "\<forall>s\<in>D. ?depth s \<le> d" "\<forall>q\<in>set (r # rest). d \<le> ?depth q \<and> ?depth q \<le> d + 1"
    using b6 [THEN conjunct2] by blast
  have An: "?A \<subseteq> {..<n}" by (rule links_ok_bound [OF ok])
  then have rn: "r < n" by simp
  have rD: "r \<notin> D" using disj by auto
  have r0: "r \<noteq> 0" using rD root by (cases "r = 0") simp_all
  have closed: "\<forall>x<n. ?depth x \<le> ?depth r \<longrightarrow> x \<in> ?A"
    using bfs_level [OF inv cover root srt] by blast
  have fresh: "\<forall>c\<in>set (ord r). \<forall>t. trie r c = Some t \<longrightarrow> t \<notin> ?A"
  proof (intro ballI allI impI notI)
    fix c t assume e: "trie r c = Some t" and tA: "t \<in> ?A"
    from tA have "t \<in> insert 0 (children trie D)" unfolding cover .
    moreover have "t \<noteq> 0"
      by (rule tinv_edge_nonroot [OF inv e])
    ultimately have "t \<in> children trie D" by simp
    then obtain s c' where s: "s \<in> D" "trie s c' = Some t"
      unfolding children_def by blast
    then have "lab s = lab r" "s < n"
      using tinv_edge [OF inv e] tinv_edge [OF inv s(2)] by auto
    then have "s = r" using tinv_inj [OF inv _ rn] by simp
    with s(1) rD show False by simp
  qed
  have dist: "distinct (ord r)" and all: "set (ord r) = UNIV"
    using ko by (auto simp: key_order_def)
  let ?kids = "kids trie r (ord r)"
  from visit_edges_ok [OF inv lb ok _ r0 closed dist fresh, of rest]
  obtain failure' out' where run: "visit_edges trie r (ord r) (rest, failure, out) = Some (rest @ ?kids, failure', out')"
    and ok': "links_ok n lab ws (?A \<union> set ?kids) failure' out'"
    by auto
  have kids: "set ?kids = children trie {r}"
    unfolding set_kids children_def all by simp
  have kdepth: "?depth t = ?depth r + 1" if t: "t \<in> set ?kids" for t
  proof -
    obtain c where "trie r c = Some t" using t by (auto simp: set_kids)
    from tinv_edge [OF inv this] show ?thesis by simp
  qed
  have kfresh: "t \<notin> ?A" if t: "t \<in> set ?kids" for t
  proof -
    obtain c where "c \<in> set (ord r)" "trie r c = Some t" using t by (auto simp: set_kids)
    then show ?thesis using fresh by blast
  qed
  have sets: "insert r D \<union> set (rest @ ?kids) = ?A \<union> set ?kids"
    by (simp add: Un_assoc)
  have "bfs_inv trie n lab ws (insert r D) (rest @ ?kids) failure' out'"
    unfolding bfs_inv_def
  proof (intro conjI)
    show "links_ok n lab ws (insert r D \<union> set (rest @ ?kids)) failure' out'"
      using ok' by (simp only: sets)
    show "0 \<in> insert r D" using root by simp
    show "distinct (rest @ ?kids)"
      using dq distinct_kids [OF inv dist] kfresh by fastforce
    show "insert r D \<inter> set (rest @ ?kids) = {}"
      using dq disj kfresh by fastforce
    show "insert r D \<union> set (rest @ ?kids) = insert 0 (children trie (insert r D))"
    proof -
      have "children trie (insert r D) = children trie D \<union> children trie {r}"
        unfolding children_def by blast
      then have "insert 0 (children trie (insert r D)) = ?A \<union> set ?kids"
        unfolding cover kids by blast
      then show ?thesis unfolding sets by simp
    qed
    show "sorted (map ?depth (rest @ ?kids))"
    proof -
      have "sorted (map ?depth rest)" using srt by simp
      moreover have "sorted (map ?depth ?kids)"
        using kdepth by (intro sorted_const [of _ _ "?depth r + 1"]) blast
      moreover have "\<forall>x\<in>set rest. \<forall>y\<in>set ?kids. ?depth x \<le> ?depth y"
      proof (intro ballI)
        fix x y assume "x \<in> set rest" "y \<in> set ?kids"
        then have "?depth x \<le> d + 1" "d \<le> ?depth r" "?depth y = ?depth r + 1"
          using d(2) kdepth by auto
        then show "?depth x \<le> ?depth y" by simp
      qed
      ultimately show ?thesis by (simp add: sorted_append)
    qed
    show "\<exists>d. (\<forall>s\<in>insert r D. ?depth s \<le> d) \<and>
       (\<forall>q\<in>set (rest @ ?kids). d \<le> ?depth q \<and> ?depth q \<le> d + 1)"
    proof (intro exI [of _ "?depth r"] conjI)
      have "d \<le> ?depth r" using d(2) by simp
      then show "\<forall>s\<in>insert r D. ?depth s \<le> ?depth r"
        using d(1) by fastforce
      show "\<forall>q\<in>set (rest @ ?kids). ?depth r \<le> ?depth q \<and> ?depth q \<le> ?depth r + 1"
      proof
        fix q assume q: "q \<in> set (rest @ ?kids)"
        show "?depth r \<le> ?depth q \<and> ?depth q \<le> ?depth r + 1"
        proof (cases "q \<in> set rest")
          case True
          then have "?depth r \<le> ?depth q" using srt by auto
          moreover have "?depth q \<le> d + 1" "d \<le> ?depth r" using d(2) True by auto
          ultimately show ?thesis by simp
        next
          case False
          then have "q \<in> set ?kids" using q by simp
          then show ?thesis using kdepth by simp
        qed
      qed
    qed
  qed
  with run rD rn show ?thesis by blast
qed

lemma bfs_total:
  assumes inv: "tinv trie n lab" and lb: "labelled ws n lab" and ko: "key_order ord"
  shows "bfs_inv trie n lab ws D queue failure out \<Longrightarrow>
     \<exists>failure' out'. bfs trie ord (queue, failure, out) = Some (failure', out')
       \<and> links_ok n lab ws {..<n} failure' out'"
proof (induction "n - card D" arbitrary: D queue failure out rule: less_induct)
  case less
  have sub: "D \<union> set queue \<subseteq> {..<n}"
    by (rule links_ok_bound [OF bfs_inv_links [OF less.prems]])
  show ?case
  proof (cases queue)
    case Nil
    then have "D = insert 0 (children trie D)"
      using less.prems unfolding bfs_inv_def by simp
    then have "D = {..<n}"
      using bfs_all [OF inv] sub by auto
    then have "links_ok n lab ws {..<n} failure out"
      using bfs_inv_links [OF less.prems] Nil by simp
    moreover have "bfs trie ord (queue, failure, out) = Some (failure, out)"
      using Nil by (subst bfs.simps) simp
    ultimately show ?thesis by blast
  next
    case (Cons r rest)
    from bfs_step [OF inv lb ko less.prems [unfolded Cons]]
    obtain queue' failure1 out1 where run: "visit_edges trie r (ord r) (rest, failure, out) = Some (queue', failure1, out1)"
      and bi: "bfs_inv trie n lab ws (insert r D) queue' failure1 out1" and r: "r \<notin> D" "r < n"
      by blast
    have fin: "finite D" using sub finite_subset by blast
    have "insert r D \<subseteq> {..<n}"
      using links_ok_bound [OF bfs_inv_links [OF bi]] by simp
    then have "card (insert r D) \<le> n"
      using card_mono [of "{..<n}" "insert r D"] by simp
    then have "n - card (insert r D) < n - card D"
      using r(1) fin by simp
    from less.hyps [OF this bi]
    obtain failure' out' where "bfs trie ord (queue', failure1, out1) = Some (failure', out')"
      "links_ok n lab ws {..<n} failure' out'"
      by blast
    moreover have "bfs trie ord (queue, failure, out) = bfs trie ord (queue', failure1, out1)"
      using Cons run by (subst bfs.simps) simp
    ultimately show ?thesis by auto
  qed
qed

lemma bfs_init:
  assumes ok: "trie_ok ws trie n out lab" and that: "distinct cs" "set cs = UNIV"
  shows "bfs_inv trie n lab ws {0} (kids trie 0 cs) (replicate n 0) out"
proof -
  have inv: "tinv trie n lab" and len: "length out = n"
    and outs: "\<forall>s<n. out ! s = own ws (lab s)"
    using ok by (auto simp: trie_ok_def)
  have lab0: "lab 0 = []" and n0: "0 < n" using inv by (auto simp: tinv_def)
  let ?kids = "kids trie 0 cs"
  have kid: "t < n \<and> lab t = [c] \<and> t \<noteq> 0" if "trie 0 c = Some t" for t c
    using tinv_edge [OF inv that] tinv_edge_nonroot [OF inv that] lab0 by simp
  have kset: "set ?kids = children trie {0}"
    unfolding set_kids children_def that(2) by simp
  have k1: "length (lab t) = 1 \<and> t < n \<and> t \<noteq> 0 \<and> is_fail lab n t 0 \<and> (\<exists>c. lab t = [c])" if t: "t \<in> set ?kids" for t
  proof -
    obtain c where e: "trie 0 c = Some t" using t by (auto simp: set_kids)
    from kid [OF e] fail_root_child [OF inv e] show ?thesis by simp
  qed
  have "links_ok n lab ws ({0} \<union> set ?kids) (replicate n 0) out"
    unfolding links_ok_def
  proof (intro conjI)
    show "length (replicate n (0::nat)) = n" "length out = n" "0 \<in> {0} \<union> set ?kids"
      using len by auto
    show "{0} \<union> set ?kids \<subseteq> {..<n}" using k1 n0 by auto
    show "\<forall>s\<in>{0} \<union> set ?kids. s \<noteq> 0 \<longrightarrow> is_fail lab n s (replicate n 0 ! s)"
      using k1 by auto
    show "\<forall>s<n. \<forall>k\<in>set (out ! s). k < length ws \<and> suffix (ws ! k) (lab s)"
      using outs by (auto simp: own_set)
    show "\<forall>s<n. s \<notin> {0} \<union> set ?kids \<or> s = 0 \<longrightarrow> out ! s = own ws (lab s)"
      using outs by auto
    show "[] \<notin> set ws \<longrightarrow> (\<forall>s\<in>{0} \<union> set ?kids. out ! s = out_spec ws (lab s))"
    proof (intro impI ballI)
      fix s assume ne: "[] \<notin> set ws" and s: "s \<in> {0} \<union> set ?kids"
      show "out ! s = out_spec ws (lab s)"
      proof (cases "s = 0")
        case True
        then show ?thesis using outs n0 lab0 own_empty [OF ne] by simp
      next
        case False
        then obtain c where "lab s = [c]" "s < n" using s k1 by auto
        then show ?thesis using outs by simp
      qed
    qed
    show "\<forall>s\<in>{0} \<union> set ?kids. \<forall>k<length ws. ws ! k \<noteq> [] \<and> suffix (ws ! k) (lab s) \<longrightarrow>
        k \<in> set (out ! s)"
    proof (intro ballI allI impI)
      fix s k assume s: "s \<in> {0} \<union> set ?kids" and k: "k < length ws"
        and w: "ws ! k \<noteq> [] \<and> suffix (ws ! k) (lab s)"
      have sn: "s < n" using s k1 n0 by auto
      have "length (lab s) \<le> 1" using s k1 lab0 by auto
      moreover have "length (ws ! k) \<le> length (lab s)"
        using w suffix_length_le by auto
      moreover have "0 < length (ws ! k)" using w by simp
      ultimately have "length (ws ! k) = length (lab s)" by linarith
      then have "ws ! k = lab s"
        using w by (metis suffix_def append_eq_append_conv append_Nil)
      then have "k \<in> set (own ws (lab s))" using k by (simp add: own_set)
      then show "k \<in> set (out ! s)" using outs sn by simp
    qed
  qed
  moreover have "sorted (map (\<lambda>s. length (lab s)) ?kids)"
    using k1 by (intro sorted_const [of _ _ 1]) blast
  moreover have "\<exists>d. (\<forall>s\<in>{0}. length (lab s) \<le> d) \<and>
      (\<forall>q\<in>set ?kids. d \<le> length (lab q) \<and> length (lab q) \<le> d + 1)"
    using k1 lab0 by (intro exI [of _ 0]) auto
  moreover have "{0} \<inter> set ?kids = {}" using k1 by auto
  moreover have "{0} \<union> set ?kids = insert 0 (children trie {0})"
    using kset by simp
  moreover note distinct_kids [OF inv that(1), of 0]
  ultimately show ?thesis
    unfolding bfs_inv_def by blast
qed

lemma bfs_shallow:
  assumes inv: "tinv trie n lab" and lb: "labelled ws n lab" and ko: "key_order ord"
  shows "bfs_inv trie n lab ws D queue failure out \<Longrightarrow> shallow_own ws n lab out \<Longrightarrow>
     bfs trie ord (queue, failure, out) = Some (failure', out') \<Longrightarrow> shallow_own ws n lab out'"
proof (induction "n - card D" arbitrary: D queue failure out rule: less_induct)
  case less
  have sub: "D \<union> set queue \<subseteq> {..<n}"
    by (rule links_ok_bound [OF bfs_inv_links [OF less.prems(1)]])
  show ?case
  proof (cases queue)
    case Nil
    have "bfs trie ord (queue, failure, out) = Some (failure, out)"
      using Nil by (subst bfs.simps) simp
    then show ?thesis using less.prems by simp
  next
    case (Cons r rest)
    from bfs_step [OF inv lb ko less.prems(1) [unfolded Cons]]
    obtain queue' failure1 out1 where run: "visit_edges trie r (ord r) (rest, failure, out) = Some (queue', failure1, out1)"
      and bi: "bfs_inv trie n lab ws (insert r D) queue' failure1 out1" and r: "r \<notin> D" "r < n"
      by blast
    have "0 \<in> D" using less.prems(1) unfolding bfs_inv_def by (elim conjE)
    then have r0: "r \<noteq> 0" using r(1) by (cases "r = 0") simp_all
    have sh: "shallow_own ws n lab out1"
      by (rule visit_edges_shallow [OF inv r(2) r0 run less.prems(2)])
    have fin: "finite D" using sub finite_subset by blast
    have "insert r D \<subseteq> {..<n}"
      using links_ok_bound [OF bfs_inv_links [OF bi]] by simp
    then have "card (insert r D) \<le> n"
      using card_mono [of "{..<n}" "insert r D"] by simp
    then have m: "n - card (insert r D) < n - card D"
      using r(1) fin by simp
    have "bfs trie ord (queue, failure, out) = bfs trie ord (queue', failure1, out1)"
      using Cons run by (subst bfs.simps) simp
    then have "bfs trie ord (queue', failure1, out1) = Some (failure', out')"
      using less.prems(3) by simp
    from less.hyps [OF m bi sh this] show ?thesis .
  qed
qed

lemma cell_less: "s < n \<Longrightarrow> c < asz \<Longrightarrow> s * asz + c < n * (asz::nat)"
proof -
  assume a: "s < n" "c < asz"
  then have "s * asz + c < Suc s * asz" by simp
  also have "\<dots> \<le> n * asz" using a(1) by (intro mult_le_mono1) simp
  finally show ?thesis .
qed

lemma cell_row: "c < asz \<Longrightarrow> (s * asz + c) div asz = (s::nat)"
  by simp

lemma cell_inj: "c < asz \<Longrightarrow> c' < asz \<Longrightarrow> s * asz + c = s' * asz + c' \<Longrightarrow> s = (s'::nat)"
  by (metis cell_row)

lemma links_ok_fail:
  "links_ok n lab ws A failure out \<Longrightarrow> s \<in> A \<Longrightarrow> s \<noteq> 0 \<Longrightarrow>
     s < length failure \<and> is_fail lab n s (failure ! s)"
  unfolding links_ok_def by blast

lemma links_ok_sound:
  "links_ok n lab ws A failure out \<Longrightarrow> s < n \<Longrightarrow> k \<in> set (out ! s) \<Longrightarrow>
     k < length ws \<and> suffix (ws ! k) (lab s)"
  unfolding links_ok_def by blast

lemma links_ok_exact:
  "links_ok n lab ws A failure out \<Longrightarrow> [] \<notin> set ws \<Longrightarrow> s \<in> A \<Longrightarrow> out ! s = out_spec ws (lab s)"
  unfolding links_ok_def by blast

lemma links_ok_length: "links_ok n lab ws A failure out \<Longrightarrow> length out = n"
  unfolding links_ok_def by blast

lemma links_ok_complete:
  "links_ok n lab ws A failure out \<Longrightarrow>
     \<forall>s\<in>A. \<forall>k<length ws. ws ! k \<noteq> [] \<and> suffix (ws ! k) (lab s) \<longrightarrow> k \<in> set (out ! s)"
  unfolding links_ok_def by (elim conjE)

lemma links_walk:
  assumes inv: "tinv trie n lab" and ok: "links_ok n lab ws {..<n} failure out" and s: "s < n"
  shows "\<exists>t. walk_failure trie failure c s = Some t \<and> is_lsl lab n (lab s @ [c]) t"
proof (rule walk_failure_lsl [OF inv s], intro allI impI)
  fix s' assume "s' < n" "s' \<noteq> 0 \<and> suffix (lab s') (lab s)"
  then show "s' < length failure \<and> is_fail lab n s' (failure ! s')"
    using links_ok_fail [OF ok, of s'] by simp
qed

lemma fill_row_ok:
  assumes inv: "tinv trie n lab" and ok: "links_ok n lab ws {..<n} failure out" and s: "s < n"
  shows "\<forall>c\<in>set cs. s * asz + c < length tab \<Longrightarrow>
     \<exists>tab'. fill_row trie failure asz s cs tab = Some tab' \<and> length tab' = length tab \<and>
       (\<forall>j<length tab. (\<forall>c\<in>set cs. j \<noteq> s * asz + c) \<longrightarrow> tab' ! j = tab ! j) \<and>
       (\<forall>c\<in>set cs. is_lsl lab n (lab s @ [of_nat c]) (tab' ! (s * asz + c)))"
proof (induction cs arbitrary: tab)
  case Nil
  then show ?case by simp
next
  case (Cons c cs)
  obtain t where t: "walk_failure trie failure (of_nat c) s = Some t" "is_lsl lab n (lab s @ [of_nat c]) t"
    using links_walk [OF inv ok s] by blast
  let ?tab = "tab[s * asz + c := t]"
  have c: "s * asz + c < length tab" using Cons.prems by simp
  have "\<forall>c\<in>set cs. s * asz + c < length ?tab" using Cons.prems by simp
  from Cons.IH [OF this] obtain tab' where tab': "fill_row trie failure asz s cs ?tab = Some tab'"
    "length tab' = length ?tab"
    "\<forall>j<length ?tab. (\<forall>c\<in>set cs. j \<noteq> s * asz + c) \<longrightarrow> tab' ! j = ?tab ! j"
    "\<forall>c\<in>set cs. is_lsl lab n (lab s @ [of_nat c]) (tab' ! (s * asz + c))"
    by blast
  have run: "fill_row trie failure asz s (c # cs) tab = Some tab'"
    using t(1) c tab'(1) by (simp add: assign_def)
  have frame: "\<forall>j<length tab. (\<forall>c'\<in>set (c # cs). j \<noteq> s * asz + c') \<longrightarrow> tab' ! j = tab ! j"
    using tab'(3) by simp
  have this_c: "is_lsl lab n (lab s @ [of_nat c]) (tab' ! (s * asz + c))"
  proof (cases "c \<in> set cs")
    case True
    then show ?thesis using tab'(4) by blast
  next
    case False
    then have "\<forall>c'\<in>set cs. s * asz + c \<noteq> s * asz + c'"
      by auto
    then have "tab' ! (s * asz + c) = ?tab ! (s * asz + c)"
      using tab'(3) c by simp
    then show ?thesis using t(2) c by simp
  qed
  show ?case
    using run tab'(2,4) frame this_c by simp
qed

lemma fill_table_ok:
  assumes inv: "tinv trie n lab" and ok: "links_ok n lab ws {..<n} failure out"
  shows "\<forall>s\<in>set ss. s < n \<Longrightarrow> length tab = n * asz \<Longrightarrow>
     \<exists>tab'. fill_table trie failure asz ss tab = Some tab' \<and> length tab' = length tab \<and>
       (\<forall>j<length tab. (\<forall>s\<in>set ss. \<forall>c<asz. j \<noteq> s * asz + c) \<longrightarrow> tab' ! j = tab ! j) \<and>
       (\<forall>s\<in>set ss. \<forall>c<asz. is_lsl lab n (lab s @ [of_nat c]) (tab' ! (s * asz + c)))"
proof (induction ss arbitrary: tab)
  case Nil
  then show ?case by simp
next
  case (Cons s ss)
  have s: "s < n" using Cons.prems(1) by simp
  have cells: "\<forall>c\<in>set [0..<asz]. s * asz + c < length tab"
    using cell_less [OF s] Cons.prems(2) by simp
  from fill_row_ok [OF inv ok s cells] obtain tab1 where tab1:
    "fill_row trie failure asz s [0..<asz] tab = Some tab1" "length tab1 = length tab"
    "\<forall>j<length tab. (\<forall>c\<in>set [0..<asz]. j \<noteq> s * asz + c) \<longrightarrow> tab1 ! j = tab ! j"
    "\<forall>c\<in>set [0..<asz]. is_lsl lab n (lab s @ [of_nat c]) (tab1 ! (s * asz + c))"
    by blast
  have "\<forall>s\<in>set ss. s < n" "length tab1 = n * asz"
    using Cons.prems tab1(2) by simp_all
  from Cons.IH [OF this] obtain tab' where tab':
    "fill_table trie failure asz ss tab1 = Some tab'" "length tab' = length tab1"
    "\<forall>j<length tab1. (\<forall>s\<in>set ss. \<forall>c<asz. j \<noteq> s * asz + c) \<longrightarrow> tab' ! j = tab1 ! j"
    "\<forall>s\<in>set ss. \<forall>c<asz. is_lsl lab n (lab s @ [of_nat c]) (tab' ! (s * asz + c))"
    by blast
  have run: "fill_table trie failure asz (s # ss) tab = Some tab'"
    using tab1(1) tab'(1) by simp
  have frame: "\<forall>j<length tab. (\<forall>s'\<in>set (s # ss). \<forall>c<asz. j \<noteq> s' * asz + c) \<longrightarrow> tab' ! j = tab ! j"
    using tab1(2,3) tab'(3) by simp
  have row: "is_lsl lab n (lab s @ [of_nat c]) (tab' ! (s * asz + c))" if c: "c < asz" for c
  proof (cases "s \<in> set ss")
    case True
    then show ?thesis using tab'(4) c by blast
  next
    case False
    have "s * asz + c \<noteq> s' * asz + c'" if "s' \<in> set ss" "c' < asz" for s' c'
      using cell_inj [OF c that(2)] that(1) False by blast
    moreover have "s * asz + c < length tab1"
      using cell_less [OF s c] tab1(2) Cons.prems(2) by simp
    ultimately have "tab' ! (s * asz + c) = tab1 ! (s * asz + c)"
      using tab'(3) by blast
    then show ?thesis using tab1(4) c by simp
  qed
  show ?case
    using run tab'(2,4) tab1(2) frame row by simp
qed

lemma AddPattern_fields:
  "patterns (snd (AddPattern ac p)) = patterns ac @ [norm p]"
  "maxID (snd (AddPattern ac p)) = max (maxID ac) (ID p)"
  "hasSingleMatch (snd (AddPattern ac p)) \<longleftrightarrow> hasSingleMatch ac \<or> Flags p AND SingleMatch > 0"
  "translateTable (snd (AddPattern ac p)) = translateTable ac"
  "alphabetSize (snd (AddPattern ac p)) = alphabetSize ac"
  "stateTable (snd (AddPattern ac p)) = stateTable ac"
  "outputTable (snd (AddPattern ac p)) = outputTable ac"
  "stateCount (snd (AddPattern ac p)) = stateCount ac"
  "fst (AddPattern ac p) = None"
  by (auto simp: AddPattern_def Let_def norm_def)

lemma AddPattern_registered: "registered ac \<Longrightarrow> registered (snd (AddPattern ac p))"
  unfolding registered_def AddPattern_fields
  by (auto simp: norm_def)

lemma add_patterns_snoc: "add_patterns ac (ps @ [p]) = snd (AddPattern (add_patterns ac ps) p)"
  by (simp add: add_patterns_def)

lemma add_patterns_registered: "registered ac \<Longrightarrow> registered (add_patterns ac ps)"
  by (induction ps rule: rev_induct) (simp_all add: add_patterns_snoc AddPattern_registered add_patterns_def)

lemma add_patterns_patterns: "patterns (add_patterns ac ps) = patterns ac @ map norm ps"
  by (induction ps rule: rev_induct) (simp_all add: add_patterns_snoc AddPattern_fields add_patterns_def)

lemma add_patterns_tables:
  "translateTable (add_patterns ac ps) = translateTable ac"
  "alphabetSize (add_patterns ac ps) = alphabetSize ac"
  "stateTable (add_patterns ac ps) = stateTable ac"
  "outputTable (add_patterns ac ps) = outputTable ac"
  "stateCount (add_patterns ac ps) = stateCount ac"
  by (induction ps rule: rev_induct) (simp_all add: add_patterns_snoc AddPattern_fields add_patterns_def)

lemma NewACKS_registered: "registered NewACKS"
  by (simp add: registered_def NewACKS_def)

lemma Build_ok:
  assumes ko: "key_order ord"
  shows "\<exists>ac' lab n. Build ord ac = Some ac' \<and> automaton_ok (patterns ac) lab n ac' \<and>
     maxID ac' = maxID ac \<and> hasSingleMatch ac' = hasSingleMatch ac \<and>
     shallow_own (words (patterns ac)) n lab (outputTable ac') \<and>
     complete_out (words (patterns ac)) n lab (outputTable ac')"
proof -
  let ?ps = "patterns ac"
  let ?ac1 = "initTranslateTable ac"
  let ?tt = "symbol_of ?ps"
  let ?asz = "1 + rank (count_bytes ?ps) 256"
  have f1: "translateTable ?ac1 = ?tt" "alphabetSize ?ac1 = ?asz" "patterns ?ac1 = ?ps"
    by (simp_all add: initTranslateTable_table initTranslateTable_size initTranslateTable_patterns)
  obtain trie n out lab where bt: "build_trie ?tt 0 ?ps (\<lambda>_ _. None, 1, [[]]) = Some (trie, n, out)"
    and tok: "trie_ok (words ?ps) trie n out lab"
    using build_trie_total [of ?tt ?ps] by (auto simp: words_def)
  have inv: "tinv trie n lab" and lb: "labelled (words ?ps) n lab"
    using tok by (auto simp: trie_ok_def labelled_def)
  have dist: "distinct (ord 0)" "set (ord 0) = UNIV"
    using ko by (auto simp: key_order_def)
  have rl: "root_links trie (ord 0) ([], replicate n 0) = Some (kids trie 0 (ord 0), replicate n 0)"
    using root_links_run [OF inv, of "ord 0" "[]"] by simp
  from bfs_total [OF inv lb ko bfs_init [OF tok dist]]
  obtain failure out' where bf: "bfs trie ord (kids trie 0 (ord 0), replicate n 0, out) = Some (failure, out')"
    and ok: "links_ok n lab (words ?ps) {..<n} failure out'"
    by blast
  have "shallow_own (words ?ps) n lab out"
    using tok by (simp add: trie_ok_def shallow_own_def)
  from bfs_shallow [OF inv lb ko bfs_init [OF tok dist] this bf]
  have sh: "shallow_own (words ?ps) n lab out'" .
  from fill_table_ok [OF inv ok, of "[0..<n]" "replicate (n * ?asz) 0" ?asz]
  obtain tab where tab: "fill_table trie failure ?asz [0..<n] (replicate (n * ?asz) 0) = Some tab"
    "length tab = n * ?asz"
    "\<forall>s\<in>set [0..<n]. \<forall>c<?asz. is_lsl lab n (lab s @ [of_nat c]) (tab ! (s * ?asz + c))"
    by auto
  let ?ac' = "?ac1\<lparr>stateCount := n, outputTable := out', stateTable := tab\<rparr>"
  have run: "Build ord ac = Some ?ac'"
    unfolding Build_def buildStateMachine_def f1 using bt rl bf tab(1) by simp
  have "automaton_ok ?ps lab n ?ac'"
    unfolding automaton_ok_def
  proof (intro conjI)
    show "\<exists>trie. tinv trie n lab" using inv by blast
    show "labelled (words ?ps) n lab" by (rule lb)
    show "patterns ?ac' = ?ps" "translateTable ?ac' = ?tt" "alphabetSize ?ac' = ?asz"
      "stateCount ?ac' = n"
      using f1 by simp_all
    show "length (outputTable ?ac') = n"
      using links_ok_length [OF ok] by simp
    have "length (words ?ps) = length ?ps" by (simp add: words_def)
    then show "\<forall>s<n. \<forall>k\<in>set (outputTable ?ac' ! s). k < length ?ps \<and> suffix (words ?ps ! k) (lab s)"
      using links_ok_sound [OF ok] by simp
    show "[] \<notin> set (words ?ps) \<longrightarrow> (\<forall>s<n. outputTable ?ac' ! s = out_spec (words ?ps) (lab s))"
      using links_ok_exact [OF ok] by simp
    show "length (stateTable ?ac') = n * alphabetSize ?ac'"
      using tab(2) f1 by simp
    show "\<forall>s<n. \<forall>c<alphabetSize ?ac'.
        is_lsl lab n (lab s @ [of_nat c]) (stateTable ?ac' ! (s * alphabetSize ?ac' + c))"
      using tab(3) f1 by simp
  qed
  moreover have "maxID ?ac' = maxID ac" "hasSingleMatch ?ac' = hasSingleMatch ac"
    by (simp_all add: initTranslateTable_def Let_def split: prod.splits)
  moreover have "shallow_own (words ?ps) n lab (outputTable ?ac')"
    using sh by simp
  moreover have "complete_out (words ?ps) n lab (outputTable ?ac')"
    using links_ok_complete [OF ok] unfolding complete_out_def by simp
  ultimately show ?thesis using run by blast
qed

lemma select_append:
  "select ps text seen (xs @ ys) = select ps text seen xs @ select ps text (marks ps seen xs) ys"
  by (induction xs arbitrary: seen) (auto simp: Let_def insert_absorb)

lemma feed_append:
  "feed matched (xs @ ys) s =
     (case feed matched xs s of (Some err, s') \<Rightarrow> (Some err, s') | (None, s') \<Rightarrow> feed matched ys s')"
  by (induction xs arbitrary: s) (auto split: prod.splits option.splits)

lemma marks_append: "marks ps seen (xs @ ys) = marks ps (marks ps seen xs) ys"
  by (induction xs arbitrary: seen) auto

lemma mask_test: "(w :: 64 word) AND 2 ^ b \<noteq> 0 \<longleftrightarrow> bit w b"
  by (simp add: and_exp_eq_0_iff_not_bit)

lemma mask_set: "a < 64 \<Longrightarrow> b < 64 \<Longrightarrow> bit ((w :: 64 word) OR 2 ^ a) b \<longleftrightarrow> bit w b \<or> a = b"
  by (auto simp: bit_simps)

lemma mark_single_ok:
  assumes rel: "rec_rel ac useSlice rs seen" and hs: "hasSingleMatch ac" and id: "ID pat \<le> maxID ac"
  shows "\<exists>rs'. mark_single useSlice pat rs = Returned (ID pat \<in> seen, rs') \<and>
     rec_rel ac useSlice rs' (insert (ID pat) seen)"
proof (cases useSlice)
  case False
  then have "snd rs = Some seen" using rel hs by (simp add: rec_rel_def)
  then show ?thesis
    using False hs by (cases rs) (auto simp: mark_single_def rec_rel_def insert_absorb)
next
  case True
  obtain sl mp where rs: "rs = (sl, mp)" by (cases rs)
  let ?idx = "ID pat div 64" and ?mask = "push_bit (ID pat mod 64) (1 :: 64 word)"
  have len: "length sl = maxID ac div 64 + 1"
    and bits: "\<forall>x\<le>maxID ac. (sl ! (x div 64)) AND push_bit (x mod 64) 1 \<noteq> 0 \<longleftrightarrow> x \<in> seen"
    using rel hs True rs by (auto simp: rec_rel_def)
  have idx: "?idx < length sl"
    using id len by (simp add: div_le_mono less_Suc_eq_le)
  have test: "sl ! ?idx AND ?mask \<noteq> 0 \<longleftrightarrow> ID pat \<in> seen"
    using bits id by blast
  show ?thesis
  proof (cases "ID pat \<in> seen")
    case yes: True
    then have "mark_single useSlice pat rs = Returned (True, rs)"
      using True rs idx test by (simp add: mark_single_def Let_def index_def)
    then show ?thesis
      using yes rel by (auto simp: insert_absorb)
  next
    case no: False
    let ?sl = "sl[?idx := sl ! ?idx OR ?mask]"
    have run: "mark_single useSlice pat rs = Returned (False, (?sl, mp))"
      using True rs idx test no by (simp add: mark_single_def Let_def index_def)
    have "(?sl ! (x div 64)) AND push_bit (x mod 64) 1 \<noteq> 0 \<longleftrightarrow> x \<in> insert (ID pat) seen"
      if x: "x \<le> maxID ac" for x
    proof (cases "x div 64 = ?idx")
      case same: True
      then have "?sl ! (x div 64) = sl ! ?idx OR ?mask"
        using idx by simp
      then have "(?sl ! (x div 64)) AND push_bit (x mod 64) 1 \<noteq> 0
          \<longleftrightarrow> bit (sl ! ?idx) (x mod 64) \<or> ID pat mod 64 = x mod 64"
        by (simp add: mask_test mask_set)
      also have "\<dots> \<longleftrightarrow> x \<in> seen \<or> ID pat mod 64 = x mod 64"
      proof -
        have "(sl ! (x div 64) AND 2 ^ (x mod 64) \<noteq> 0) \<longleftrightarrow> x \<in> seen"
          using bits x by simp
        then have "bit (sl ! ?idx) (x mod 64) \<longleftrightarrow> x \<in> seen"
          unfolding mask_test same .
        then show ?thesis by simp
      qed
      also have "ID pat mod 64 = x mod 64 \<longleftrightarrow> x = ID pat"
        using same by (metis div_mult_mod_eq)
      finally show ?thesis by auto
    next
      case diff: False
      then have "x \<noteq> ID pat" by auto
      then show ?thesis
        using diff bits x by simp
    qed
    then have "rec_rel ac useSlice (?sl, mp) (insert (ID pat) seen)"
      using True len by (simp add: rec_rel_def)
    with run no show ?thesis by auto
  qed
qed

lemma verify_window:
  assumes "strlen pat = length (Content pat)" "strlen pat \<le> Suc i" "i < length text"
  shows "slice_from text (int i - int (strlen pat) + 1) = Some (drop (Suc i - strlen pat) text)"
    and "memcmp (Content pat) (drop (Suc i - strlen pat) text) (strlen pat) = exact_at (Content pat) text i"
proof -
  have "nat (int i - int (strlen pat) + 1) = Suc i - strlen pat"
    using assms(2) by simp
  then show "slice_from text (int i - int (strlen pat) + 1) = Some (drop (Suc i - strlen pat) text)"
    using assms(2,3) by (simp add: slice_from_def)
  show "memcmp (Content pat) (drop (Suc i - strlen pat) text) (strlen pat) = exact_at (Content pat) text i"
    using assms by (auto simp: memcmp_def exact_at_def)
qed

lemma report_skip:
  assumes "index (patterns ac) k = Some pat"
    and "(if Flags pat AND SingleMatch > 0 then mark_single useSlice pat rs else Returned (False, rs))
          = Returned (True, rs1)"
  shows "report_outputs ac useSlice text matched i (k # outs) (rs, s)
     = report_outputs ac useSlice text matched i outs (rs1, s)"
  using assms by simp

lemma report_call:
  assumes "index (patterns ac) k = Some pat"
    and "(if Flags pat AND SingleMatch > 0 then mark_single useSlice pat rs else Returned (False, rs))
          = Returned (False, rs1)"
    and "slice_from text (int i - int (strlen pat) + 1) = Some w"
    and "Flags pat AND Caseless > 0 \<or> memcmp (Content pat) w (strlen pat)"
  shows "report_outputs ac useSlice text matched i (k # outs) (rs, s)
     = (case matched s (Suc i) pat of
          (Some err, s') \<Rightarrow> Returned (Some err, rs1, s')
        | (None, s') \<Rightarrow> report_outputs ac useSlice text matched i outs (rs1, s'))"
  using assms by auto

lemma report_drop:
  assumes "index (patterns ac) k = Some pat"
    and "(if Flags pat AND SingleMatch > 0 then mark_single useSlice pat rs else Returned (False, rs))
          = Returned (False, rs1)"
    and "slice_from text (int i - int (strlen pat) + 1) = Some w"
    and "\<not> (Flags pat AND Caseless > 0 \<or> memcmp (Content pat) w (strlen pat))"
  shows "report_outputs ac useSlice text matched i (k # outs) (rs, s)
     = report_outputs ac useSlice text matched i outs (rs1, s)"
  using assms by auto

lemma search_step_quiet:
  assumes "index (outputTable ac) (next_state ac cur b) = Some []"
  shows "search_bytes ac useSlice text matched i (b # bs) (cur, rs, s)
     = search_bytes ac useSlice text matched (Suc i) bs (next_state ac cur b, rs, s)"
  using assms by (simp add: Let_def)

lemma search_step_stop:
  assumes "index (outputTable ac) (next_state ac cur b) = Some outs"
    and "report_outputs ac useSlice text matched i outs (rs, s) = Returned (Some err, rs', s')"
  shows "search_bytes ac useSlice text matched i (b # bs) (cur, rs, s) = Returned (Some err, s')"
  using assms by (cases outs) (simp_all add: Let_def)

lemma search_step_on:
  assumes "index (outputTable ac) (next_state ac cur b) = Some outs"
    and "report_outputs ac useSlice text matched i outs (rs, s) = Returned (None, rs', s')"
  shows "search_bytes ac useSlice text matched i (b # bs) (cur, rs, s)
     = search_bytes ac useSlice text matched (Suc i) bs (next_state ac cur b, rs', s')"
  using assms by (cases outs) (simp_all add: Let_def)

lemma report_outputs_ok:
  assumes reg: "registered ac" and i: "i < length text"
  shows "rec_rel ac useSlice rs seen \<Longrightarrow>
     \<forall>k\<in>set outs. k < length (patterns ac) \<and> strlen (patterns ac ! k) \<le> Suc i \<Longrightarrow>
     \<exists>rs'. report_outputs ac useSlice text matched i outs (rs, s)
        = Returned (fst (feed matched (select (patterns ac) text seen (map (Pair i) outs)) s), rs',
                    snd (feed matched (select (patterns ac) text seen (map (Pair i) outs)) s))
       \<and> (fst (feed matched (select (patterns ac) text seen (map (Pair i) outs)) s) = None
            \<longrightarrow> rec_rel ac useSlice rs' (marks (patterns ac) seen (map (Pair i) outs)))"
proof (induction outs arbitrary: rs seen s)
  case Nil
  then show ?case by simp
next
  case (Cons k outs)
  let ?ps = "patterns ac"
  let ?pat = "?ps ! k"
  let ?sm = "Flags ?pat AND SingleMatch > 0"
  have k: "k < length ?ps" "strlen ?pat \<le> Suc i"
    and rest: "\<forall>k\<in>set outs. k < length ?ps \<and> strlen (?ps ! k) \<le> Suc i"
    using Cons.prems(2) by auto
  have pat: "?pat \<in> set ?ps" using k(1) by simp
  then have regp: "ID ?pat \<le> maxID ac" "?sm \<longrightarrow> hasSingleMatch ac" "strlen ?pat = length (Content ?pat)"
    using reg unfolding registered_def by blast+
  have idx: "index ?ps k = Some ?pat" using k(1) by (simp add: index_def)
  let ?seen1 = "if ?sm then insert (ID ?pat) seen else seen"
  let ?skip = "?sm \<and> ID ?pat \<in> seen"
  obtain rs1 where m: "(if ?sm then mark_single useSlice ?pat rs else Returned (False, rs)) = Returned (?skip, rs1)"
    and rel1: "rec_rel ac useSlice rs1 ?seen1"
  proof (cases ?sm)
    case True
    then show ?thesis
      using mark_single_ok [OF Cons.prems(1) _ regp(1)] regp(2) that by auto
  next
    case False
    then show ?thesis using that [of rs] Cons.prems(1) by simp
  qed
  note w = verify_window [OF regp(3) k(2) i]
  let ?go = "Flags ?pat AND Caseless > 0 \<or> exact_at (Content ?pat) text i"
  let ?rest = "select ?ps text ?seen1 (map (Pair i) outs)"
  have mk: "marks ?ps seen (map (Pair i) (k # outs)) = marks ?ps ?seen1 (map (Pair i) outs)"
    by simp
  show ?case
  proof (cases ?skip)
    case True
    from m True have m': "(if ?sm then mark_single useSlice ?pat rs else Returned (False, rs)) = Returned (True, rs1)"
      by simp
    have run: "report_outputs ac useSlice text matched i (k # outs) (rs, s)
        = report_outputs ac useSlice text matched i outs (rs1, s)"
      by (rule report_skip [OF idx m'])
    have sel: "select ?ps text seen (map (Pair i) (k # outs)) = ?rest"
      using True by (simp add: insert_absorb)
    from Cons.IH [OF rel1 rest, of s] show ?thesis
      unfolding run sel mk .
  next
    case noskip: False
    from m noskip have m': "(if ?sm then mark_single useSlice ?pat rs else Returned (False, rs)) = Returned (False, rs1)"
      by simp
    show ?thesis
    proof (cases ?go)
      case False
      have run: "report_outputs ac useSlice text matched i (k # outs) (rs, s)
          = report_outputs ac useSlice text matched i outs (rs1, s)"
        by (rule report_drop [OF idx m' w(1)]) (use False w(2) in simp)
      have sel: "select ?ps text seen (map (Pair i) (k # outs)) = ?rest"
        using False noskip by (auto simp: Let_def)
      from Cons.IH [OF rel1 rest, of s] show ?thesis
        unfolding run sel mk .
    next
      case True
      have run: "report_outputs ac useSlice text matched i (k # outs) (rs, s)
          = (case matched s (Suc i) ?pat of
               (Some err, s') \<Rightarrow> Returned (Some err, rs1, s')
             | (None, s') \<Rightarrow> report_outputs ac useSlice text matched i outs (rs1, s'))"
        by (rule report_call [OF idx m' w(1)]) (use True w(2) in simp)
      have sel: "select ?ps text seen (map (Pair i) (k # outs)) = (Suc i, ?pat) # ?rest"
        using True noskip by (auto simp: Let_def)
      obtain e s' where ms: "matched s (Suc i) ?pat = (e, s')" by (cases "matched s (Suc i) ?pat")
      show ?thesis
      proof (cases e)
        case (Some err)
        then show ?thesis
          unfolding run sel mk by (simp add: ms)
      next
        case None
        from Cons.IH [OF rel1 rest, of s'] show ?thesis
          unfolding run sel mk by (simp add: ms None)
      qed
    qed
  qed
qed

lemma run_snoc: "run ac (pre @ [b]) = next_state ac (run ac pre) b"
  by (simp add: run_def)

lemma cands_from_step:
  "i < length text \<Longrightarrow> cands_from ac text i
     = map (Pair i) (outputTable ac ! run ac (take (Suc i) text)) @ cands_from ac text (Suc i)"
  by (simp add: cands_from_def upt_conv_Cons)

lemma cands_from_end: "cands_from ac text (length text) = []"
  by (simp add: cands_from_def)

lemma search_bytes_ok:
  assumes sr: "searchable ac"
  shows "text = pre @ bs \<Longrightarrow> rec_rel ac useSlice rs seen \<Longrightarrow>
     search_bytes ac useSlice text matched (length pre) bs (run ac pre, rs, s)
       = Returned (feed matched (select (patterns ac) text seen (cands_from ac text (length pre))) s)"
proof (induction bs arbitrary: pre rs seen s)
  case Nil
  then show ?case by (simp add: cands_from_end)
next
  case (Cons b bs)
  let ?i = "length pre"
  let ?cur = "run ac (pre @ [b])"
  let ?outs = "outputTable ac ! ?cur"
  have reg: "registered ac" using sr by (simp add: searchable_def)
  have i: "?i < length text" using Cons.prems(1) by simp
  have tk: "take (Suc ?i) text = pre @ [b]" using Cons.prems(1) by simp
  have cur: "?cur < length (outputTable ac)"
    and outs: "\<forall>k\<in>set ?outs. k < length (patterns ac) \<and> strlen (patterns ac ! k) \<le> Suc ?i"
    using sr [unfolded searchable_def, THEN conjunct2, rule_format, of "pre @ [b]"] by auto
  have idx: "index (outputTable ac) (next_state ac (run ac pre) b) = Some ?outs"
    using cur by (simp add: index_def run_snoc)
  have text': "text = (pre @ [b]) @ bs" using Cons.prems(1) by simp
  have len': "length (pre @ [b]) = Suc ?i" by simp
  let ?sel = "select (patterns ac) text seen (map (Pair ?i) ?outs)"
  let ?seen' = "marks (patterns ac) seen (map (Pair ?i) ?outs)"
  let ?tail = "\<lambda>s'. feed matched (select (patterns ac) text ?seen' (cands_from ac text (Suc ?i))) s'"
  have split: "feed matched (select (patterns ac) text seen (cands_from ac text ?i)) s
      = (case feed matched ?sel s of (Some err, s') \<Rightarrow> (Some err, s') | (None, s') \<Rightarrow> ?tail s')"
    unfolding cands_from_step [OF i] tk select_append feed_append ..
  from report_outputs_ok [OF reg i Cons.prems(2) outs, of matched s]
  obtain rs' where both: "report_outputs ac useSlice text matched ?i ?outs (rs, s)
        = Returned (fst (feed matched ?sel s), rs', snd (feed matched ?sel s))
      \<and> (fst (feed matched ?sel s) = None \<longrightarrow> rec_rel ac useSlice rs' ?seen')" ..
  note rep = both [THEN conjunct1] and rel' = both [THEN conjunct2]
  obtain e s' where fs: "feed matched ?sel s = (e, s')" by (cases "feed matched ?sel s")
  have rep': "report_outputs ac useSlice text matched ?i ?outs (rs, s) = Returned (e, rs', s')"
    unfolding rep fs by simp
  show ?case
  proof (cases e)
    case (Some err)
    have "search_bytes ac useSlice text matched ?i (b # bs) (run ac pre, rs, s) = Returned (Some err, s')"
      by (rule search_step_stop [OF idx rep' [unfolded Some]])
    then show ?thesis
      unfolding split fs Some by simp
  next
    case None
    then have rel: "rec_rel ac useSlice rs' ?seen'" using rel' fs by simp
    have "search_bytes ac useSlice text matched ?i (b # bs) (run ac pre, rs, s)
        = search_bytes ac useSlice text matched (Suc ?i) bs (next_state ac (run ac pre) b, rs', s')"
      by (rule search_step_on [OF idx rep' [unfolded None]])
    also have "\<dots> = Returned (?tail s')"
      using Cons.IH [OF text' rel, of s'] unfolding len' run_snoc .
    finally show ?thesis
      unfolding split fs None by simp
  qed
qed

lemma record_slice_init:
  "x \<le> m \<Longrightarrow> replicate (m div 64 + 1) (0 :: 64 word) ! (x div 64) = 0"
  by (rule nth_replicate) (simp add: div_le_mono less_Suc_eq_le)

lemma rec_rel_init:
  "rec_rel ac (maxID ac \<le> threshold)
     (if hasSingleMatch ac then
        (if maxID ac \<le> threshold then (replicate (maxID ac div 64 + 1) 0, None) else ([], Some {}))
      else ([], None)) {}"
  unfolding rec_rel_def by (auto simp: record_slice_init simp del: replicate.simps replicate_Suc)

theorem searchPatterns_with_ok:
  assumes "searchable ac"
  shows "searchPatterns_with threshold ac text matched s
     = Returned (feed matched (select (patterns ac) text {} (cands_from ac text 0)) s)"
proof -
  let ?rs = "if hasSingleMatch ac then
        (if maxID ac \<le> threshold then (replicate (maxID ac div 64 + 1) 0, None) else ([], Some {}))
      else ([], None)"
  have "search_bytes ac (maxID ac \<le> threshold) text matched (length ([] :: byte list)) text (run ac [], ?rs, s)
      = Returned (feed matched (select (patterns ac) text {} (cands_from ac text (length ([] :: byte list)))) s)"
    by (rule search_bytes_ok [OF assms _ rec_rel_init]) simp
  then show ?thesis
    by (simp add: searchPatterns_with_def run_def Let_def)
qed

lemma automaton_root:
  assumes "automaton_ok ps lab n ac"
  shows "0 < n" "lab 0 = []"
  using assms by (auto simp: automaton_ok_def tinv_def)

lemma automaton_next:
  assumes ok: "automaton_ok ps lab n ac" and s: "s < n"
  shows "s * alphabetSize ac + unat (translateTable ac b) < length (stateTable ac)"
    and "is_lsl lab n (lab s @ [symbol_of ps b]) (next_state ac s b)"
proof -
  note a = ok [unfolded automaton_ok_def]
  have tt: "translateTable ac = symbol_of ps" and asz: "alphabetSize ac = 1 + rank (count_bytes ps) 256"
    and len: "length (stateTable ac) = n * alphabetSize ac"
    and cells: "\<forall>s<n. \<forall>c<alphabetSize ac.
        is_lsl lab n (lab s @ [of_nat c]) (stateTable ac ! (s * alphabetSize ac + c))"
    using a by blast+
  have c: "unat (symbol_of ps b) < alphabetSize ac"
    using symbol_of_less [of ps b] asz by simp
  show idx: "s * alphabetSize ac + unat (translateTable ac b) < length (stateTable ac)"
    using cell_less [OF s c] tt len by simp
  have "is_lsl lab n (lab s @ [of_nat (unat (symbol_of ps b))])
      (stateTable ac ! (s * alphabetSize ac + unat (symbol_of ps b)))"
    using cells s c by blast
  then show "is_lsl lab n (lab s @ [symbol_of ps b]) (next_state ac s b)"
    using idx tt by (simp add: next_state_def Let_def)
qed

lemma automaton_run:
  assumes ok: "automaton_ok ps lab n ac"
  shows "is_lsl lab n (map (symbol_of ps) text) (run ac text)"
proof (induction "text" rule: rev_induct)
  case Nil
  then show ?case
    using automaton_root [OF ok] by (simp add: run_def is_lsl_def)
next
  case (snoc b bs)
  obtain trie where inv: "tinv trie n lab"
    using ok unfolding automaton_ok_def by blast
  have s: "run ac bs < n" using snoc by (simp add: is_lsl_def)
  from lsl_extend [OF inv snoc automaton_next(2) [OF ok s, of b]]
  show ?case by (simp add: run_snoc)
qed

lemma automaton_run_less: "automaton_ok ps lab n ac \<Longrightarrow> run ac text < n"
  using automaton_run [of ps lab n ac "text"] by (simp add: is_lsl_def)

lemma automaton_sound:
  assumes ok: "automaton_ok ps lab n ac" and k: "k \<in> set (outputTable ac ! run ac text)"
  shows "k < length ps \<and> suffix (words ps ! k) (map (symbol_of ps) text)"
proof -
  have "\<forall>s<n. \<forall>k\<in>set (outputTable ac ! s). k < length ps \<and> suffix (words ps ! k) (lab s)"
    using ok unfolding automaton_ok_def by blast
  then have "k < length ps \<and> suffix (words ps ! k) (lab (run ac text))"
    using automaton_run_less [OF ok] k by blast
  moreover have "suffix (lab (run ac text)) (map (symbol_of ps) text)"
    using automaton_run [OF ok, of "text"] by (simp add: is_lsl_def)
  ultimately show ?thesis
    using suffix_order.trans by blast
qed

lemma automaton_exact:
  assumes ok: "automaton_ok ps lab n ac" and ne: "[] \<notin> set (words ps)"
  shows "outputTable ac ! run ac text = out_spec (words ps) (map (symbol_of ps) text)"
proof -
  have "\<forall>s<n. outputTable ac ! s = out_spec (words ps) (lab s)" and lb: "labelled (words ps) n lab"
    using ok ne unfolding automaton_ok_def by blast+
  then have "outputTable ac ! run ac text = out_spec (words ps) (lab (run ac text))"
    using automaton_run_less [OF ok] by blast
  then show ?thesis
    using out_spec_lsl [OF lb automaton_run [OF ok, of "text"]] by simp
qed

lemma words_nth: "k < length ps \<Longrightarrow> words ps ! k = map (\<lambda>b. symbol_of ps (toLower b)) (Content (ps ! k))"
  by (simp add: words_def symbols_def)

lemma symbols_eq_iff:
  assumes "set c \<subseteq> (\<Union>p\<in>set ps. set (Content p))"
  shows "map (\<lambda>b. symbol_of ps (toLower b)) c = map (symbol_of ps) w \<longleftrightarrow> map toLower w = map toLower c"
  using assms
proof (induction c arbitrary: w)
  case Nil
  then show ?case by auto
next
  case (Cons x c)
  have x: "toLower x \<in> folded ps" using Cons.prems by (auto simp: folded_def)
  show ?case
  proof (cases w)
    case Nil
    then show ?thesis by simp
  next
    case (Cons y w')
    have "symbol_of ps (toLower x) = symbol_of ps y \<longleftrightarrow> toLower y = toLower x"
      using symbol_of_eq_iff [OF x, of y] by (auto simp: symbol_of_toLower)
    then show ?thesis
      using Cons.IH [of w'] Cons.prems Cons by auto
  qed
qed

lemma suffix_take_drop:
  "suffix v u \<longleftrightarrow> length v \<le> length u \<and> drop (length u - length v) u = v"
  by (metis append_eq_conv_conj append_take_drop_id diff_add_inverse2 length_append le_add2
      length_drop suffix_def suffix_length_le suffix_drop)

lemma window_prefix:
  assumes "i < length text" "l \<le> Suc i"
  shows "drop (Suc i - l) (take (Suc i) text) = take l (drop (Suc i - l) text)"
  using assms by (simp add: drop_take)

lemma word_suffix_iff:
  assumes k: "k < length ps" and i: "i < length text"
  shows "suffix (words ps ! k) (map (symbol_of ps) (take (Suc i) text))
     \<longleftrightarrow> folded_at (Content (ps ! k)) text i"
proof -
  let ?c = "Content (ps ! k)"
  let ?l = "length ?c"
  have sub: "set ?c \<subseteq> (\<Union>p\<in>set ps. set (Content p))"
    using k by (auto intro: nth_mem)
  have len: "length (take (Suc i) text) = Suc i" using i by simp
  have "suffix (words ps ! k) (map (symbol_of ps) (take (Suc i) text))
      \<longleftrightarrow> ?l \<le> Suc i \<and> drop (Suc i - ?l) (map (symbol_of ps) (take (Suc i) text)) = words ps ! k"
    unfolding suffix_take_drop using len by (simp add: words_nth [OF k])
  also have "\<dots> \<longleftrightarrow> ?l \<le> Suc i \<and>
      map (\<lambda>b. symbol_of ps (toLower b)) ?c = map (symbol_of ps) (take ?l (drop (Suc i - ?l) text))"
    using window_prefix [OF i, of ?l] by (auto simp: words_nth [OF k] drop_map)
  also have "\<dots> \<longleftrightarrow> folded_at ?c text i"
    unfolding symbols_eq_iff [OF sub] folded_at_def by simp
  finally show ?thesis .
qed

lemma automaton_searchable:
  assumes ok: "automaton_ok (patterns ac) lab n ac" and reg: "registered ac"
  shows "searchable ac"
  unfolding searchable_def
proof (intro conjI allI ballI)
  show "registered ac" by (rule reg)
  fix t
  have n: "length (outputTable ac) = n"
    using ok unfolding automaton_ok_def by blast
  show "run ac t < length (outputTable ac)"
    using automaton_run_less [OF ok] n by simp
  fix k assume k: "k \<in> set (outputTable ac ! run ac t)"
  from automaton_sound [OF ok k] have kl: "k < length (patterns ac)"
    and suf: "suffix (words (patterns ac) ! k) (map (symbol_of (patterns ac)) t)"
    by auto
  show "k < length (patterns ac)" by (rule kl)
  have "strlen (patterns ac ! k) = length (Content (patterns ac ! k))"
    using reg kl unfolding registered_def by simp
  then show "strlen (patterns ac ! k) \<le> length t"
    using suffix_length_le [OF suf] by (simp add: words_nth [OF kl])
qed

lemma out_spec_by_length:
  "out_spec ws u = concat (map (\<lambda>l. filter (\<lambda>k. length (ws ! k) = l \<and> suffix (ws ! k) u) [0..<length ws])
                               (rev [1..<Suc (length u)]))"
proof (induction u)
  case Nil
  then show ?case by simp
next
  case (Cons x xs)
  have top: "filter (\<lambda>k. length (ws ! k) = Suc (length xs) \<and> suffix (ws ! k) (x # xs)) [0..<length ws]
      = own ws (x # xs)"
    unfolding own_def
    by (rule filter_cong) (auto simp: suffix_take_drop)
  have rest: "filter (\<lambda>k. length (ws ! k) = l \<and> suffix (ws ! k) (x # xs)) [0..<length ws]
      = filter (\<lambda>k. length (ws ! k) = l \<and> suffix (ws ! k) xs) [0..<length ws]"
    if "l \<in> set (rev [1..<Suc (length xs)])" for l
    by (rule filter_cong) (use that in \<open>auto simp: suffix_Cons\<close>)
  let ?F = "\<lambda>u l. filter (\<lambda>k. length (ws ! k) = l \<and> suffix (ws ! k) u) [0..<length ws]"
  let ?L = "rev [1..<Suc (length xs)]"
  have m: "map (?F xs) ?L = map (?F (x # xs)) ?L"
    by (rule map_cong [OF refl]) (rule rest [symmetric])
  have r: "rev [1..<Suc (length (x # xs))] = Suc (length xs) # ?L"
    by simp
  have "out_spec ws (x # xs) = own ws (x # xs) @ concat (map (?F (x # xs)) ?L)"
    unfolding out_spec.simps Cons.IH m ..
  also have "\<dots> = concat (map (?F (x # xs)) (rev [1..<Suc (length (x # xs))]))"
    unfolding r using top by simp
  finally show ?case .
qed

lemma automaton_matches:
  assumes ok: "automaton_ok ps lab n ac" and ne: "\<forall>p\<in>set ps. Content p \<noteq> []" and i: "i < length text"
  shows "outputTable ac ! run ac (take (Suc i) text) = matches_at ps text i"
proof -
  have ne': "[] \<notin> set (words ps)"
    using ne by (auto simp: words_def symbols_def)
  have len: "length (words ps) = length ps" by (simp add: words_def)
  have "outputTable ac ! run ac (take (Suc i) text)
      = out_spec (words ps) (map (symbol_of ps) (take (Suc i) text))"
    by (rule automaton_exact [OF ok ne'])
  also have "\<dots> = concat (map (\<lambda>l. filter (\<lambda>k. length (words ps ! k) = l \<and>
         suffix (words ps ! k) (map (symbol_of ps) (take (Suc i) text))) [0..<length ps])
       (rev [1..<Suc (Suc i)]))"
    unfolding out_spec_by_length len using i by simp
  also have "\<dots> = matches_at ps text i"
    unfolding matches_at_def
  proof (intro arg_cong [where f = concat] map_cong refl filter_cong)
    fix l k assume "k \<in> set [0..<length ps]"
    then have k: "k < length ps" by simp
    have "length (words ps ! k) = length (Content (ps ! k))"
      by (simp add: words_nth [OF k])
    then show "(length (words ps ! k) = l \<and>
         suffix (words ps ! k) (map (symbol_of ps) (take (Suc i) text)))
        = (length (Content (ps ! k)) = l \<and> folded_at (Content (ps ! k)) text i)"
      unfolding word_suffix_iff [OF k i] by simp
  qed
  finally show ?thesis .
qed

lemma automaton_cands:
  assumes ok: "automaton_ok ps lab n ac" and ne: "\<forall>p\<in>set ps. Content p \<noteq> []"
  shows "cands_from ac text 0 = spec_cands ps text"
  unfolding cands_from_def spec_cands_def
  by (intro arg_cong [where f = concat] map_cong refl) (simp add: automaton_matches [OF ok ne])

lemma automaton_cands_sound:
  assumes ok: "automaton_ok ps lab n ac" and c: "(i, k) \<in> set (cands_from ac text j)"
  shows "i < length text \<and> k < length ps \<and> folded_at (Content (ps ! k)) text i"
proof -
  from c have i: "i < length text" and k: "k \<in> set (outputTable ac ! run ac (take (Suc i) text))"
    by (auto simp: cands_from_def)
  from automaton_sound [OF ok k] word_suffix_iff [OF _ i] i show ?thesis by blast
qed

lemma key_order_ascending: "key_order ascending"
proof -
  have "distinct (map of_nat [0..<256] :: byte list)"
    by (rule distinct_map [THEN iffD2]) (auto intro!: inj_onI dest: of_nat_byte_inj)
  moreover have "set (map of_nat [0..<256] :: byte list) = UNIV"
  proof (rule set_eqI, rule iffI [OF UNIV_I])
    fix b :: byte
    have "b = of_nat (unat b)" by simp
    moreover have "unat b \<in> set [0..<256]" using unat_byte_less [of b] by simp
    ultimately show "b \<in> set (map of_nat [0..<256])"
      by (metis image_eqI set_map)
  qed
  ultimately show ?thesis
    unfolding key_order_def ascending_def by simp
qed

lemma compile_ok:
  assumes "key_order ord"
  shows "\<exists>ac lab n. compile ord ps = Some ac \<and> patterns ac = map norm ps \<and>
     automaton_ok (map norm ps) lab n ac \<and> registered ac \<and> searchable ac \<and>
     shallow_own (words (map norm ps)) n lab (outputTable ac) \<and>
     complete_out (words (map norm ps)) n lab (outputTable ac)"
proof -
  let ?ac0 = "add_patterns NewACKS ps"
  have p0: "patterns ?ac0 = map norm ps"
    by (simp add: add_patterns_patterns NewACKS_def)
  have r0: "registered ?ac0"
    by (rule add_patterns_registered [OF NewACKS_registered])
  from Build_ok [OF assms, of ?ac0] obtain ac lab n where b: "Build ord ?ac0 = Some ac"
    and ok: "automaton_ok (patterns ?ac0) lab n ac"
    and m: "maxID ac = maxID ?ac0" "hasSingleMatch ac = hasSingleMatch ?ac0"
    and sh: "shallow_own (words (patterns ?ac0)) n lab (outputTable ac)"
    and co: "complete_out (words (patterns ?ac0)) n lab (outputTable ac)"
    by blast
  have pa: "patterns ac = map norm ps"
    using ok p0 unfolding automaton_ok_def by simp
  have reg: "registered ac"
    using r0 m pa p0 unfolding registered_def by simp
  have "searchable ac"
    by (rule automaton_searchable [OF _ reg]) (use ok p0 pa in simp)
  then show ?thesis
    using b ok p0 pa reg sh co unfolding compile_def by auto
qed

text \<open>
  C6: after \<^verbatim>\<open>Build\<close> the transition table has exactly \<open>stateCount * alphabetSize\<close>
  entries, every entry is a state below \<open>stateCount\<close>, and for the state reached on any
  input and any next byte the index \<open>currentState * alphabetSize + symbol\<close> lies inside
  the table, so the reset branch of \<^verbatim>\<open>searchPatterns\<close> is never taken.
\<close>

theorem C6_transition_table_total:
  assumes "key_order ord"
  shows "\<exists>ac. compile ord ps = Some ac \<and>
     length (stateTable ac) = stateCount ac * alphabetSize ac \<and>
     (\<forall>e\<in>set (stateTable ac). e < stateCount ac) \<and>
     (\<forall>text b. run ac text * alphabetSize ac + unat (translateTable ac b) < length (stateTable ac) \<and>
        next_state ac (run ac text) b
          = stateTable ac ! (run ac text * alphabetSize ac + unat (translateTable ac b)))"
proof -
  from compile_ok [OF assms, of ps] obtain ac lab n where c: "compile ord ps = Some ac"
    and ok: "automaton_ok (map norm ps) lab n ac"
    by blast
  note a = ok [unfolded automaton_ok_def]
  have n: "stateCount ac = n" and len: "length (stateTable ac) = n * alphabetSize ac"
    and asz: "alphabetSize ac = 1 + rank (count_bytes (map norm ps)) 256"
    and cells: "\<forall>s<n. \<forall>c<alphabetSize ac.
        is_lsl lab n (lab s @ [of_nat c]) (stateTable ac ! (s * alphabetSize ac + c))"
    using a by blast+
  have entries: "e < stateCount ac" if e: "e \<in> set (stateTable ac)" for e
  proof -
    obtain j where j: "j < n * alphabetSize ac" "e = stateTable ac ! j"
      using e len by (metis in_set_conv_nth)
    let ?s = "j div alphabetSize ac" and ?c = "j mod alphabetSize ac"
    have pos: "0 < alphabetSize ac" using asz by simp
    have "?s < n" using j(1) pos by (simp add: less_mult_imp_div_less)
    moreover have "?c < alphabetSize ac" using pos by simp
    ultimately have "is_lsl lab n (lab ?s @ [of_nat ?c]) (stateTable ac ! (?s * alphabetSize ac + ?c))"
      using cells by blast
    then show ?thesis
      using j(2) n by (simp add: is_lsl_def)
  qed
  have steps: "run ac t * alphabetSize ac + unat (translateTable ac b) < length (stateTable ac) \<and>
      next_state ac (run ac t) b = stateTable ac ! (run ac t * alphabetSize ac + unat (translateTable ac b))"
    for t b
    using automaton_next(1) [OF ok automaton_run_less [OF ok], of t b]
    by (simp add: next_state_def Let_def)
  show ?thesis
    using c n len entries steps by (intro exI [of _ ac]) simp
qed

theorem C6_transition_table_total_witness:
  "key_order ascending \<and>
   (\<exists>ac. compile ascending [mkPat ''he'' 1 0, mkPat ''she'' 2 0, mkPat ''his'' 3 0] = Some ac \<and>
      length (stateTable ac) = stateCount ac * alphabetSize ac \<and>
      (\<forall>e\<in>set (stateTable ac). e < stateCount ac) \<and>
      (\<forall>text b. run ac text * alphabetSize ac + unat (translateTable ac b) < length (stateTable ac) \<and>
         next_state ac (run ac text) b
           = stateTable ac ! (run ac text * alphabetSize ac + unat (translateTable ac b))))"
  using C6_transition_table_total [OF key_order_ascending,
      of "[mkPat ''he'' 1 0, mkPat ''she'' 2 0, mkPat ''his'' 3 0]"] key_order_ascending
  by simp

text \<open>
  C8: the threshold that selects between the bit-indexed array and the hash set does not
  change what a search does: for every built matcher, with any two thresholds (so in
  particular one at or above the largest id, which selects the array, and one below it,
  which selects the set), \<^verbatim>\<open>searchPatterns\<close> calls the same handler in the same order
  and returns the same result.
\<close>

theorem C8_dedup_structure_equivalent:
  assumes "key_order ord"
  shows "\<exists>ac. compile ord ps = Some ac \<and>
     (\<forall>t1 t2 text matched s.
        searchPatterns_with t1 ac text matched (s :: 's) = searchPatterns_with t2 ac text matched s)"
proof -
  from compile_ok [OF assms, of ps] obtain ac where c: "compile ord ps = Some ac"
    and sr: "searchable ac"
    by blast
  show ?thesis
    using c by (intro exI [of _ ac]) (simp add: searchPatterns_with_ok [OF sr])
qed

theorem C8_dedup_structure_equivalent_witness:
  "key_order ascending \<and>
   (\<exists>ac. compile ascending [mkPat ''foo'' 100 SingleMatch] = Some ac \<and>
      (\<forall>t1 t2 text matched s.
         searchPatterns_with t1 ac text matched (s :: nat list)
           = searchPatterns_with t2 ac text matched s))"
  using C8_dedup_structure_equivalent [OF key_order_ascending, of "[mkPat ''foo'' 100 SingleMatch]"]
    key_order_ascending
  by simp

text \<open>
  C9: whenever the search loop inspects pattern \<open>k\<close> of the output set of the state reached
  after the byte at index \<open>i\<close>, the pattern is registered, its case-folded bytes are the
  last \<open>strlen\<close> bytes consumed, the window start \<open>i - strlen + 1\<close> is not negative, the
  slice \<^verbatim>\<open>text[i-pat.strlen+1:]\<close> exists and holds at least \<open>strlen\<close> bytes; and no search
  on a built matcher panics.
\<close>

theorem C9_window_in_bounds:
  assumes "key_order ord"
  shows "\<exists>ac. compile ord ps = Some ac \<and>
     (\<forall>text i k. i < length text \<longrightarrow> k \<in> set (outputTable ac ! run ac (take (Suc i) text)) \<longrightarrow>
        k < length (patterns ac) \<and>
        folded_at (Content (patterns ac ! k)) text i \<and>
        0 \<le> int i - int (strlen (patterns ac ! k)) + 1 \<and>
        (\<exists>window. slice_from text (int i - int (strlen (patterns ac ! k)) + 1) = Some window \<and>
           strlen (patterns ac ! k) \<le> length window)) \<and>
     (\<forall>threshold text matched s p.
        searchPatterns_with threshold ac text matched (s :: 's) \<noteq> Panicked p)"
proof -
  from compile_ok [OF assms, of ps] obtain ac lab n where c: "compile ord ps = Some ac"
    and pa: "patterns ac = map norm ps"
    and ok: "automaton_ok (map norm ps) lab n ac" and reg: "registered ac" and sr: "searchable ac"
    by blast
  have win: "k < length (patterns ac) \<and>
        folded_at (Content (patterns ac ! k)) text i \<and>
        0 \<le> int i - int (strlen (patterns ac ! k)) + 1 \<and>
        (\<exists>window. slice_from text (int i - int (strlen (patterns ac ! k)) + 1) = Some window \<and>
           strlen (patterns ac ! k) \<le> length window)"
    if i: "i < length text" and k: "k \<in> set (outputTable ac ! run ac (take (Suc i) text))"
    for "text" i k
  proof -
    have kl: "k < length (patterns ac)" and b: "strlen (patterns ac ! k) \<le> Suc i"
      using sr [unfolded searchable_def, THEN conjunct2, rule_format, of "take (Suc i) text"] k i
      by auto
    have sl: "strlen (patterns ac ! k) = length (Content (patterns ac ! k))"
      using reg kl unfolding registered_def by simp
    have "k \<in> set (outputTable ac ! run ac (take (Suc i) text))" by (rule k)
    from automaton_sound [OF ok this] word_suffix_iff [OF _ i, of k "map norm ps"]
    have fa: "folded_at (Content (patterns ac ! k)) text i"
      using pa by simp
    have "length (drop (Suc i - strlen (patterns ac ! k)) text) \<ge> strlen (patterns ac ! k)"
      using i b by simp
    then show ?thesis
      using kl fa b verify_window(1) [OF sl b i] by simp
  qed
  show ?thesis
    using c win by (intro exI [of _ ac]) (simp add: searchPatterns_with_ok [OF sr])
qed

theorem C9_window_in_bounds_witness:
  "key_order ascending \<and>
   (\<exists>ac. compile ascending [mkPat ''he'' 1 0, mkPat ''she'' 2 0] = Some ac \<and>
     (\<forall>text i k. i < length text \<longrightarrow> k \<in> set (outputTable ac ! run ac (take (Suc i) text)) \<longrightarrow>
        k < length (patterns ac) \<and>
        folded_at (Content (patterns ac ! k)) text i \<and>
        0 \<le> int i - int (strlen (patterns ac ! k)) + 1 \<and>
        (\<exists>window. slice_from text (int i - int (strlen (patterns ac ! k)) + 1) = Some window \<and>
           strlen (patterns ac ! k) \<le> length window)) \<and>
     (\<forall>threshold text matched s p.
        searchPatterns_with threshold ac text matched (s :: nat list) \<noteq> Panicked p))"
  using C9_window_in_bounds [OF key_order_ascending, of "[mkPat ''he'' 1 0, mkPat ''she'' 2 0]"]
    key_order_ascending
  by simp

lemma feed_collect:
  "feed (\<lambda>matches pos ps. (None, matches @ [ID ps])) evs s = (None, s @ map (\<lambda>ev. ID (snd ev)) evs)"
  by (induction evs arbitrary: s) auto

lemma feed_deliver:
  "feed (\<lambda>s pos ps. case m s (ID ps) 0 pos of (Some err, s') \<Rightarrow> (Some err, s') | (None, s') \<Rightarrow> (None, s'))
      evs s = deliver m (map call_of evs) s"
  by (induction evs arbitrary: s) (auto simp: call_of_def split: prod.splits option.splits)

lemma Search_events:
  assumes "searchable ac"
  shows "Search ac text = Returned (Some (map (\<lambda>ev. ID (snd ev)) (events ac text)), None)"
  unfolding Search_def searchPatterns_def searchPatterns_with_ok [OF assms] feed_collect events_def
  by simp

lemma Scan_events:
  assumes "searchable ac"
  shows "Scan ac text m s = Returned (deliver m (map call_of (events ac text)) s)"
proof -
  obtain e s' where d: "deliver m (map call_of (events ac text)) s = (e, s')"
    by (cases "deliver m (map call_of (events ac text)) s")
  show ?thesis
    unfolding Scan_def searchPatterns_def searchPatterns_with_ok [OF assms] feed_deliver
      events_def [symmetric] d
    by (cases e) simp_all
qed

lemma deliver_logged_step:
  "deliver (logged m) ((pid, start, stop) # cs) (s, log) =
     (case m s pid start stop of
        (Some err, s') \<Rightarrow> (Some err, (s', log @ [(pid, start, stop)]))
      | (None, s') \<Rightarrow> deliver (logged m) cs (s', log @ [(pid, start, stop)]))"
proof -
  obtain e1 s1 where m: "m s pid start stop = (e1, s1)" by (cases "m s pid start stop")
  then have "logged m (s, log) pid start stop = (e1, (s1, log @ [(pid, start, stop)]))"
    by (simp add: logged_def)
  then show ?thesis
    unfolding deliver.simps m by (cases e1) simp_all
qed

lemma deliver_logged:
  "deliver (logged m) cs (s, log) = (e, (s', log')) \<Longrightarrow>
     \<exists>n\<le>length cs. log' = log @ take n cs \<and> (e = None \<longrightarrow> n = length cs)"
proof (induction cs arbitrary: s log)
  case Nil
  then show ?case by simp
next
  case (Cons c cs)
  obtain pid start stop where c: "c = (pid, start, stop)" by (cases c)
  obtain e1 s1 where m: "m s pid start stop = (e1, s1)" by (cases "m s pid start stop")
  show ?case
  proof (cases e1)
    case (Some err)
    then have "log' = log @ [c]" "e = Some err"
      using Cons.prems unfolding c deliver_logged_step m by simp_all
    then show ?thesis
      by (intro exI [of _ 1]) simp
  next
    case None
    then have "deliver (logged m) cs (s1, log @ [c]) = (e, (s', log'))"
      using Cons.prems unfolding c deliver_logged_step m by simp
    from Cons.IH [OF this] obtain n where "n \<le> length cs" "log' = (log @ [c]) @ take n cs"
      "e = None \<longrightarrow> n = length cs"
      by blast
    then show ?thesis
      by (intro exI [of _ "Suc n"]) simp
  qed
qed

lemma scan_calls_events:
  assumes "searchable ac"
  shows "scan_calls ac text = map call_of (events ac text)"
proof -
  let ?cs = "map call_of (events ac text)"
  obtain e u log where d: "deliver (logged (\<lambda>s pid start stop. (None, s))) ?cs ((), []) = (e, (u, log))"
    by (metis prod_cases3)
  have none: "fst (deliver (logged (\<lambda>s pid start stop. (None, s))) cs sl) = None" for cs and sl :: "unit \<times> (nat \<times> nat \<times> nat) list"
  proof (induction cs arbitrary: sl)
    case Nil
    then show ?case by simp
  next
    case (Cons c cs)
    obtain pid start stop where c: "c = (pid, start, stop)" by (cases c)
    obtain u log where sl: "sl = (u, log)" by (cases sl)
    show ?case
      unfolding c sl deliver_logged_step using Cons.IH by simp
  qed
  then have "e = None" using d by (metis fst_conv)
  with deliver_logged [OF d] have "log = ?cs" by auto
  then show ?thesis
    unfolding scan_calls_def Scan_events [OF assms] d by simp
qed

lemma select_sound:
  "(pos, p) \<in> set (select ps text seen cs) \<Longrightarrow>
     \<exists>i k. (i, k) \<in> set cs \<and> pos = Suc i \<and> p = ps ! k \<and>
       (Flags p AND Caseless > 0 \<or> exact_at (Content p) text i)"
proof (induction cs arbitrary: seen)
  case Nil
  then show ?case by simp
next
  case (Cons c cs)
  obtain i k where c: "c = (i, k)" by (cases c)
  let ?seen' = "if Flags (ps ! k) AND SingleMatch > 0 then insert (ID (ps ! k)) seen else seen"
  have "set (select ps text seen (c # cs))
      \<subseteq> (if Flags (ps ! k) AND Caseless > 0 \<or> exact_at (Content (ps ! k)) text i
          then {(Suc i, ps ! k)} else {})
        \<union> set (select ps text seen cs) \<union> set (select ps text ?seen' cs)"
    unfolding c by (auto simp: Let_def)
  with Cons.prems consider "(pos, p) = (Suc i, ps ! k)"
      "Flags (ps ! k) AND Caseless > 0 \<or> exact_at (Content (ps ! k)) text i"
    | "(pos, p) \<in> set (select ps text seen cs)" | "(pos, p) \<in> set (select ps text ?seen' cs)"
    by (auto split: if_splits)
  then show ?case
  proof cases
    case 1
    then show ?thesis unfolding c by (intro exI [of _ i] exI [of _ k]) simp
  next
    case 2
    from Cons.IH [OF this] show ?thesis by auto
  next
    case 3
    from Cons.IH [OF this] show ?thesis by auto
  qed
qed

lemma select_cong:
  "\<forall>(i, k)\<in>set cs. ps ! k = ps' ! k \<Longrightarrow> select ps text seen cs = select ps' text seen cs"
  by (induction cs arbitrary: seen) (auto simp: Let_def)

lemma exact_at_append: "i < length text \<Longrightarrow> exact_at c (text @ ext) i = exact_at c text i"
  by (auto simp: exact_at_def)

lemma select_append_text:
  "\<forall>(i, k)\<in>set cs. i < length text \<Longrightarrow> select ps (text @ ext) seen cs = select ps text seen cs"
  by (induction cs arbitrary: seen) (auto simp: Let_def exact_at_append)

lemma deliver_append:
  "deliver m (xs @ ys) s =
     (case deliver m xs s of (Some err, s') \<Rightarrow> (Some err, s') | (None, s') \<Rightarrow> deliver m ys s')"
  by (induction xs arbitrary: s) (auto split: prod.splits option.splits)

lemma cands_from_append:
  "cands_from ac (text @ ext) 0 = cands_from ac text 0 @ cands_from ac (text @ ext) (length text)"
proof -
  have "[0..<length (text @ ext)] = [0..<length text] @ [length text..<length (text @ ext)]"
    by (metis le_add1 length_append upt_add_eq_append zero_le)
  moreover have "map (\<lambda>j. map (Pair j) (outputTable ac ! run ac (take (Suc j) (text @ ext)))) [0..<length text]
      = map (\<lambda>j. map (Pair j) (outputTable ac ! run ac (take (Suc j) text))) [0..<length text]"
    by (rule map_cong [OF refl]) simp
  ultimately show ?thesis
    unfolding cands_from_def by (simp only: map_append concat_append)
qed

lemma cands_from_positions: "(i, k) \<in> set (cands_from ac text j) \<Longrightarrow> i < length text"
  by (auto simp: cands_from_def)

lemma events_append: "\<exists>more. events ac (text @ ext) = events ac text @ more"
proof -
  have "select (patterns ac) (text @ ext) {} (cands_from ac text 0)
      = select (patterns ac) text {} (cands_from ac text 0)"
    by (rule select_append_text) (auto dest: cands_from_positions)
  then show ?thesis
    unfolding events_def cands_from_append select_append by simp
qed


lemma norm_fields [simp]:
  "Content (norm p) = Content p" "ID (norm p) = ID p" "Flags (norm p) = Flags p"
  "strlen (norm p) = length (Content p)"
  by (simp_all add: norm_def)

lemma accepts_norm [simp]: "accepts (norm p) text i = accepts p text i"
  by (simp add: accepts_def)

lemma events_sound:
  assumes ok: "automaton_ok (map norm ps) lab n ac" and pa: "patterns ac = map norm ps"
    and ev: "(pos, p) \<in> set (events ac text)"
  shows "\<exists>i k. pos = Suc i \<and> i < length text \<and> k < length ps \<and> p = norm (ps ! k) \<and>
     accepts (ps ! k) text i"
proof -
  from select_sound [OF ev [unfolded events_def]] obtain i k
    where c: "(i, k) \<in> set (cands_from ac text 0)" and pos: "pos = Suc i" and p: "p = patterns ac ! k"
      and v: "Flags p AND Caseless > 0 \<or> exact_at (Content p) text i"
    by blast
  from automaton_cands_sound [OF ok c] have i: "i < length text" and k: "k < length ps"
    and f: "folded_at (Content (map norm ps ! k)) text i"
    by auto
  have pk: "p = norm (ps ! k)" using p pa k by simp
  have "accepts (ps ! k) text i"
    using v f k unfolding pk accepts_def by auto
  then show ?thesis using pos i k pk by blast
qed

lemma AddPattern_run: "run (snd (AddPattern ac p)) text = run ac text"
proof -
  have "next_state (snd (AddPattern ac p)) = next_state ac"
    by (intro ext) (simp add: next_state_def AddPattern_fields Let_def)
  then show ?thesis by (simp add: run_def)
qed

lemma AddPattern_searchable:
  assumes "searchable ac"
  shows "searchable (snd (AddPattern ac p))"
  unfolding searchable_def
proof (intro conjI allI ballI)
  let ?ac = "snd (AddPattern ac p)"
  show "registered ?ac"
    using assms AddPattern_registered by (simp add: searchable_def)
  fix t
  note s = assms [unfolded searchable_def, THEN conjunct2, rule_format, of t]
  show "run ?ac t < length (outputTable ?ac)"
    using s by (simp add: AddPattern_run AddPattern_fields)
  fix k assume "k \<in> set (outputTable ?ac ! run ?ac t)"
  then have "k \<in> set (outputTable ac ! run ac t)"
    by (simp add: AddPattern_run AddPattern_fields)
  then have k: "k < length (patterns ac)" "strlen (patterns ac ! k) \<le> length t"
    using s by auto
  then show "k < length (patterns ?ac)" "strlen (patterns ?ac ! k) \<le> length t"
    by (simp_all add: AddPattern_fields nth_append)
qed

lemma AddPattern_events:
  assumes "searchable ac"
  shows "events (snd (AddPattern ac p)) text = events ac text"
proof -
  let ?ac = "snd (AddPattern ac p)"
  have c: "cands_from ?ac text 0 = cands_from ac text 0"
    unfolding cands_from_def by (simp add: AddPattern_run AddPattern_fields)
  have "\<forall>(i, k)\<in>set (cands_from ac text 0). patterns ?ac ! k = patterns ac ! k"
  proof (clarify)
    fix i k assume "(i, k) \<in> set (cands_from ac text 0)"
    then have "k \<in> set (outputTable ac ! run ac (take (Suc i) text))"
      by (auto simp: cands_from_def)
    then have "k < length (patterns ac)"
      using assms [unfolded searchable_def, THEN conjunct2, rule_format, of "take (Suc i) text"] by auto
    then show "patterns ?ac ! k = patterns ac ! k"
      by (simp add: AddPattern_fields nth_append)
  qed
  then show ?thesis
    unfolding events_def c by (rule select_cong)
qed

lemma add_patterns_events:
  assumes "searchable ac"
  shows "searchable (add_patterns ac qs) \<and> events (add_patterns ac qs) text = events ac text"
proof (induction qs rule: rev_induct)
  case Nil
  then show ?case using assms by (simp add: add_patterns_def)
next
  case (snoc q qs)
  then show ?case
    using AddPattern_searchable [of "add_patterns ac qs" q] AddPattern_events [of "add_patterns ac qs" q "text"]
    by (simp add: add_patterns_snoc)
qed

lemma compile_events:
  assumes "key_order ord" "\<forall>p\<in>set ps. Content p \<noteq> []" "compile ord ps = Some ac"
  shows "events ac text = select (map norm ps) text {} (spec_cands (map norm ps) text)"
proof -
  from compile_ok [OF assms(1), of ps] assms(3) obtain lab n where pa: "patterns ac = map norm ps"
    and ok: "automaton_ok (map norm ps) lab n ac"
    by auto
  have "\<forall>p\<in>set (map norm ps). Content p \<noteq> []" using assms(2) by simp
  from automaton_cands [OF ok this] show ?thesis
    unfolding events_def pa by simp
qed

lemma compile_the: "key_order ord \<Longrightarrow> compile ord ps = Some (the (compile ord ps))"
  using compile_ok [of ord ps] by auto

lemma compile_searchable: "key_order ord \<Longrightarrow> compile ord ps = Some ac \<Longrightarrow> searchable ac"
  using compile_ok [of ord ps] by auto







lemma sorted_concat_fst:
  "sorted (xs :: nat list) \<Longrightarrow> sorted (map fst (concat (map (\<lambda>i. map (Pair i) (f i)) xs)))"
proof (induction xs)
  case Nil
  then show ?case by simp
next
  case (Cons x xs)
  have "sorted (map fst (map (Pair x) (f x)))"
    by (rule sorted_const [of _ _ x]) auto
  then show ?case
    using Cons by (auto simp: sorted_append)
qed

lemma spec_cands_sorted: "sorted (map fst (spec_cands ps text))"
  unfolding spec_cands_def by (rule sorted_concat_fst) simp

lemma count_list_map: "count_list (map f xs) x = length (filter (\<lambda>a. f a = x) xs)"
  by (induction xs) auto



lemma select_once:
  "\<forall>(i, k)\<in>set cs. ID (ps ! k) = x \<longrightarrow> Flags (ps ! k) AND SingleMatch > 0 \<Longrightarrow>
     length (filter (\<lambda>ev. ID (snd ev) = x) (select ps text seen cs)) \<le> (if x \<in> seen then 0 else 1)"
proof (induction cs arbitrary: seen)
  case Nil
  then show ?case by simp
next
  case (Cons c cs)
  obtain i k where c: "c = (i, k)" by (cases c)
  have rest: "\<forall>(i, k)\<in>set cs. ID (ps ! k) = x \<longrightarrow> Flags (ps ! k) AND SingleMatch > 0"
    using Cons.prems by simp
  have head: "ID (ps ! k) = x \<longrightarrow> Flags (ps ! k) AND SingleMatch > 0"
    using Cons.prems c by simp
  note ih = Cons.IH [OF rest]
  show ?case
  proof (cases "ID (ps ! k) = x")
    case True
    then have sm: "Flags (ps ! k) AND SingleMatch > 0" using head by simp
    show ?thesis
    proof (cases "x \<in> seen")
      case True
      then show ?thesis
        using ih [of seen] sm \<open>ID (ps ! k) = x\<close> unfolding c by simp
    next
      case False
      then show ?thesis
        using ih [of "insert x seen"] sm \<open>ID (ps ! k) = x\<close> unfolding c by (simp add: Let_def)
    qed
  next
    case False
    then show ?thesis
      using ih [of seen] ih [of "insert (ID (ps ! k)) seen"] unfolding c
      by (auto simp: Let_def)
  qed
qed




lemma Search_eval:
  assumes "key_order ord" "\<forall>p\<in>set ps. Content p \<noteq> []"
    and "map call_of (select (map norm ps) text {} (spec_cands (map norm ps) text)) = calls"
  shows "Search (the (compile ord ps)) text = Returned (Some (map fst calls), None)"
    and "scan_calls (the (compile ord ps)) text = calls"
    and "Scan (the (compile ord ps)) text m s = Returned (deliver m calls s)"
proof -
  note c = compile_the [OF assms(1), of ps]
  note sr = compile_searchable [OF assms(1) c]
  have e: "map call_of (events (the (compile ord ps)) text) = calls"
    using compile_events [OF assms(1,2) c, of "text"] assms(3) by simp
  have "map (\<lambda>ev. ID (snd ev)) (events (the (compile ord ps)) text)
      = map fst (map call_of (events (the (compile ord ps)) text))"
    by (simp add: call_of_def)
  then show "Search (the (compile ord ps)) text = Returned (Some (map fst calls), None)"
    unfolding Search_events [OF sr] e by simp
  show "scan_calls (the (compile ord ps)) text = calls"
    unfolding scan_calls_events [OF sr] e ..
  show "Scan (the (compile ord ps)) text m s = Returned (deliver m calls s)"
    unfolding Scan_events [OF sr] e ..
qed


lemma cands_from_lower: "(i, k) \<in> set (cands_from ac text j) \<Longrightarrow> j \<le> i"
  by (auto simp: cands_from_def)

lemma events_positions: "(pos, p) \<in> set (events ac text) \<Longrightarrow> pos \<le> length text"
  unfolding events_def by (auto dest!: select_sound cands_from_positions)

lemma events_append_later:
  "\<exists>more. events ac (text @ ext) = events ac text @ more \<and> (\<forall>ev\<in>set more. length text < fst ev)"
proof -
  have "select (patterns ac) (text @ ext) {} (cands_from ac text 0)
      = select (patterns ac) text {} (cands_from ac text 0)"
    by (rule select_append_text) (auto dest: cands_from_positions)
  then have "events ac (text @ ext) = events ac text
      @ select (patterns ac) (text @ ext) (marks (patterns ac) {} (cands_from ac text 0))
          (cands_from ac (text @ ext) (length text))"
    unfolding events_def cands_from_append select_append by simp
  moreover have "length text < fst ev"
    if "ev \<in> set (select (patterns ac) (text @ ext) seen (cands_from ac (text @ ext) (length text)))"
    for ev seen
  proof -
    obtain pos p where ev: "ev = (pos, p)" by (cases ev)
    from select_sound [OF that [unfolded ev]] obtain i k
      where "(i, k) \<in> set (cands_from ac (text @ ext) (length text))" "pos = Suc i"
      by blast
    then show ?thesis
      unfolding ev using cands_from_lower by fastforce
  qed
  ultimately show ?thesis by blast
qed

lemma deliver_fail:
  "deliver (logged m) cs (s, log) = (Some err, (s', log')) \<Longrightarrow>
     \<exists>n<length cs. log' = log @ take (Suc n) cs \<and>
       deliver (logged m) (take (Suc n) cs) (s, log) = (Some err, (s', log'))"
proof (induction cs arbitrary: s log)
  case Nil
  then show ?case by simp
next
  case (Cons c cs)
  obtain pid start stop where c: "c = (pid, start, stop)" by (cases c)
  obtain e1 s1 where m: "m s pid start stop = (e1, s1)" by (cases "m s pid start stop")
  show ?case
  proof (cases e1)
    case None
    then have "deliver (logged m) cs (s1, log @ [c]) = (Some err, (s', log'))"
      using Cons.prems unfolding c deliver_logged_step m by simp
    from Cons.IH [OF this] obtain n where n: "n < length cs" "log' = (log @ [c]) @ take (Suc n) cs"
      "deliver (logged m) (take (Suc n) cs) (s1, log @ [c]) = (Some err, (s', log'))"
      by blast
    have "deliver (logged m) (take (Suc (Suc n)) (c # cs)) (s, log) = (Some err, (s', log'))"
      using n(3) None unfolding take_Suc_Cons c deliver_logged_step m by simp
    then show ?thesis
      using n(1,2) by (intro exI [of _ "Suc n"]) simp
  next
    case (Some e)
    then have "deliver (logged m) (take (Suc 0) (c # cs)) (s, log) = (Some err, (s', log'))"
        and "log' = log @ [c]"
      using Cons.prems unfolding c take_Suc_Cons take_0 deliver_logged_step m by simp_all
    then show ?thesis
      by (intro exI [of _ 0]) simp
  qed
qed

lemma deliver_prefix_fail:
  "deliver m xs s = (Some err, s') \<Longrightarrow> deliver m (xs @ ys) s = (Some err, s')"
  by (simp add: deliver_append)

lemma Scan_fail_local:
  assumes sr: "searchable ac"
    and run: "Scan ac text (logged m) (s, []) = Returned (Some err, (s', log))"
  shows "log \<noteq> [] \<and> (\<forall>rest. Scan ac (take (snd (snd (last log))) text @ rest) (logged m) (s, [])
           = Returned (Some err, (s', log)))"
proof -
  let ?cs = "map call_of (events ac text)"
  have d: "deliver (logged m) ?cs (s, []) = (Some err, (s', log))"
    using run unfolding Scan_events [OF sr] by simp
  from deliver_fail [OF d] obtain n where n: "n < length ?cs" and log: "log = take (Suc n) ?cs"
    and dn: "deliver (logged m) (take (Suc n) ?cs) (s, []) = (Some err, (s', log))"
    by auto
  have ne: "log \<noteq> []" using n log by auto
  have last: "last log = ?cs ! n"
    using n unfolding log by (simp add: take_Suc_conv_app_nth)
  define j where "j = fst (events ac text ! n)"
  have stop: "snd (snd (last log)) = j"
    unfolding last j_def using n by (simp add: call_of_def)
  have "events ac text ! n \<in> set (events ac text)" using n by simp
  then have jl: "j \<le> length text"
    unfolding j_def using events_positions [of "fst (events ac text ! n)" "snd (events ac text ! n)"]
    by simp
  let ?t = "take j text"
  have lt: "length ?t = j" using jl by simp
  from events_append_later [of ac ?t "drop j text"] obtain more
    where ev: "events ac text = events ac ?t @ more" and later: "\<forall>ev\<in>set more. j < fst ev"
    unfolding lt by auto
  have nl: "n < length (events ac ?t)"
  proof (rule ccontr)
    assume "\<not> n < length (events ac ?t)"
    then have "events ac text ! n = more ! (n - length (events ac ?t))"
        and "n - length (events ac ?t) < length more"
      using n unfolding ev by (simp_all add: nth_append)
    then have "events ac text ! n \<in> set more" by simp
    with later show False unfolding j_def by auto
  qed
  have tk: "take (Suc n) ?cs = take (Suc n) (map call_of (events ac ?t))"
    using nl unfolding ev by simp
  have "Scan ac (?t @ rest) (logged m) (s, []) = Returned (Some err, (s', log))" for rest
  proof -
    from events_append_later [of ac ?t rest] obtain more'
      where ev': "events ac (?t @ rest) = events ac ?t @ more'"
      by auto
    let ?ct = "map call_of (events ac ?t)"
    have "map call_of (events ac (?t @ rest)) = take (Suc n) ?ct @ (drop (Suc n) ?ct @ map call_of more')"
      unfolding ev' by simp
    then have "deliver (logged m) (map call_of (events ac (?t @ rest))) (s, []) = (Some err, (s', log))"
      using deliver_prefix_fail [OF dn [unfolded tk]] by simp
    then show ?thesis
      unfolding Scan_events [OF sr] by simp
  qed
  then show ?thesis
    using ne unfolding stop by simp
qed


text \<open>
  C4: every call that \<^verbatim>\<open>Scan\<close> makes to the caller's handler, for whatever handler,
  has \<open>from = 0\<close> and \<open>to = i + 1\<close>, where \<open>i\<close> is a byte index of the text at which a
  registered pattern with the reported id occurs (case-folded if it is Caseless, exactly
  otherwise); no start offset is reported.
\<close>

theorem C4_scan_offsets:
  assumes "key_order ord"
  shows "\<exists>ac. compile ord ps = Some ac \<and>
     (\<forall>text m s err s' log. Scan ac text (logged m) ((s :: 's), []) = Returned (err, (s', log)) \<longrightarrow>
        (\<forall>(pid, start, stop)\<in>set log. start = 0 \<and>
           (\<exists>i k. stop = i + 1 \<and> i < length text \<and> k < length ps \<and> pid = ID (ps ! k) \<and>
              accepts (ps ! k) text i)))"
proof -
  from compile_ok [OF assms, of ps] obtain ac lab n where c: "compile ord ps = Some ac"
    and pa: "patterns ac = map norm ps"
    and ok: "automaton_ok (map norm ps) lab n ac" and sr: "searchable ac"
    by blast
  have "start = 0 \<and> (\<exists>i k. stop = i + 1 \<and> i < length text \<and> k < length ps \<and> pid = ID (ps ! k) \<and>
              accepts (ps ! k) text i)"
    if run: "Scan ac text (logged m) (s, []) = Returned (err, (s', log))"
      and call: "(pid, start, stop) \<in> set log"
    for "text" pid start stop log err s' and s :: 's and m
  proof -
    have "deliver (logged m) (map call_of (events ac text)) (s, []) = (err, (s', log))"
      using run unfolding Scan_events [OF sr] by simp
    from deliver_logged [OF this] obtain j where "log = take j (map call_of (events ac text))"
      by auto
    then have "(pid, start, stop) \<in> set (map call_of (events ac text))"
      using call by (auto dest: in_set_takeD)
    then obtain pos p where ev: "(pos, p) \<in> set (events ac text)" and eq: "(pid, start, stop) = call_of (pos, p)"
      by auto
    from events_sound [OF ok pa ev] eq show ?thesis
      by (auto simp: call_of_def)
  qed
  then show ?thesis
    using c by (intro exI [of _ ac]) blast
qed

theorem C4_scan_offsets_witness:
  "key_order ascending \<and>
   (\<exists>ac. compile ascending [mkPat ''he'' 1 0, mkPat ''she'' 2 0, mkPat ''his'' 3 0] = Some ac \<and>
      Scan ac (bytes ''ushers'') (logged (\<lambda>s pid start stop. (None, s))) ((), [])
        = Returned (None, ((), [(2, 0, 4), (1, 0, 4)])) \<and>
      (\<forall>(pid, start, stop)\<in>set [(2, 0 :: nat, 4), (1, 0, 4)]. start = 0 \<and>
         (\<exists>i k. stop = i + 1 \<and> i < length (bytes ''ushers'') \<and>
            k < length [mkPat ''he'' 1 0, mkPat ''she'' 2 0, mkPat ''his'' 3 0] \<and>
            pid = ID ([mkPat ''he'' 1 0, mkPat ''she'' 2 0, mkPat ''his'' 3 0] ! k) \<and>
            accepts ([mkPat ''he'' 1 0, mkPat ''she'' 2 0, mkPat ''his'' 3 0] ! k) (bytes ''ushers'') i)))"
proof -
  let ?ps = "[mkPat ''he'' 1 0, mkPat ''she'' 2 0, mkPat ''his'' 3 0]"
  let ?t = "bytes ''ushers''"
  let ?m = "\<lambda>(s :: unit) (pid :: nat) (start :: nat) (stop :: nat). (None :: error option, s)"
  have ne: "\<forall>p\<in>set ?ps. Content p \<noteq> []"
    by (simp add: mkPat_def bytes_def)
  from C4_scan_offsets [OF key_order_ascending, of ?ps, where ?'s = unit] obtain ac
    where c: "compile ascending ?ps = Some ac"
      and all: "\<forall>text m s err s' log. Scan ac text (logged m) ((s :: unit), []) = Returned (err, (s', log)) \<longrightarrow>
        (\<forall>(pid, start, stop)\<in>set log. start = 0 \<and>
           (\<exists>i k. stop = i + 1 \<and> i < length text \<and> k < length ?ps \<and> pid = ID (?ps ! k) \<and>
              accepts (?ps ! k) text i))"
    by (elim exE conjE)
  have ac: "the (compile ascending ?ps) = ac" using c by simp
  have v: "map call_of (select (map norm ?ps) ?t {} (spec_cands (map norm ?ps) ?t)) = [(2, 0, 4), (1, 0, 4)]"
    by code_simp
  have s: "Scan ac ?t (logged ?m) ((), []) = Returned (None, ((), [(2, 0, 4), (1, 0, 4)]))"
    using Search_eval(3) [OF key_order_ascending ne v, of "logged ?m" "((), [])"] unfolding ac
    by (simp add: logged_def)
  note q = all [THEN spec, THEN spec, THEN spec, THEN spec, THEN spec, THEN spec, THEN mp, OF s]
  show ?thesis
    by (rule conjI [OF key_order_ascending], rule exI, rule conjI [OF c conjI [OF s q]])
qed

text \<open>
  C5: \<^verbatim>\<open>Scan\<close> hands the calls of a complete scan to the handler in order until the
  handler returns an error, returns that error with the handler's state as that call left
  it, and makes no later call; and the outcome of a failed scan (error, state and calls
  made) is the same for every text that agrees with the scanned one before the end offset
  of the failing call, so no byte from that offset on is looked at.
\<close>

theorem C5_callback_error_aborts:
  assumes "key_order ord"
  shows "\<exists>ac. compile ord ps = Some ac \<and>
     (\<forall>text m s. Scan ac text m (s :: 't) = Returned (deliver m (scan_calls ac text) s)) \<and>
     (\<forall>text m s err s' log.
        Scan ac text (logged m) ((s :: 's), []) = Returned (Some err, (s', log)) \<longrightarrow>
        log \<noteq> [] \<and>
        (\<forall>rest. Scan ac (take (snd (snd (last log))) text @ rest) (logged m) (s, [])
           = Returned (Some err, (s', log))))"
proof -
  from compile_ok [OF assms, of ps] obtain ac where c: "compile ord ps = Some ac"
    and sr: "searchable ac"
    by blast
  have a: "Scan ac text m s = Returned (deliver m (scan_calls ac text) s)" for "text" m and s :: 't
    unfolding Scan_events [OF sr] scan_calls_events [OF sr] ..
  have b: "log \<noteq> [] \<and>
        (\<forall>rest. Scan ac (take (snd (snd (last log))) text @ rest) (logged m) (s, [])
           = Returned (Some err, (s', log)))"
    if "Scan ac text (logged m) (s, []) = Returned (Some err, (s', log))"
    for "text" m err s' log and s :: 's
    by (rule Scan_fail_local [OF sr that])
  show ?thesis
    using c a b by (intro exI [of _ ac]) blast
qed

theorem C5_callback_error_aborts_witness:
  "key_order ascending \<and>
   (\<exists>ac. compile ascending [mkPat ''he'' 1 0, mkPat ''she'' 2 0, mkPat ''his'' 3 0] = Some ac \<and>
      scan_calls ac (bytes ''ushers'') = [(2, 0, 4), (1, 0, 4)] \<and>
      Scan ac (bytes ''ushers'') (logged (\<lambda>s pid start stop. (Some ''stop'', s))) ((), [])
        = Returned (Some ''stop'', ((), [(2, 0, 4)])) \<and>
      (\<forall>rest. Scan ac (bytes ''ushe'' @ rest) (logged (\<lambda>s pid start stop. (Some ''stop'', s))) ((), [])
        = Returned (Some ''stop'', ((), [(2, 0, 4)]))))"
proof -
  let ?ps = "[mkPat ''he'' 1 0, mkPat ''she'' 2 0, mkPat ''his'' 3 0]"
  let ?t = "bytes ''ushers''"
  let ?m = "\<lambda>(s :: unit) (pid :: nat) (start :: nat) (stop :: nat). (Some ''stop'' :: error option, s)"
  have ne: "\<forall>p\<in>set ?ps. Content p \<noteq> []"
    by (simp add: mkPat_def bytes_def)
  from C5_callback_error_aborts [OF key_order_ascending, of ?ps,
      where ?'s = unit and ?'t = "unit \<times> (nat \<times> nat \<times> nat) list"] obtain ac
    where c: "compile ascending ?ps = Some ac"
      and a: "\<forall>text m s. Scan ac text m (s :: unit \<times> (nat \<times> nat \<times> nat) list)
                = Returned (deliver m (scan_calls ac text) s)"
      and b: "\<forall>text m s err s' log.
        Scan ac text (logged m) ((s :: unit), []) = Returned (Some err, (s', log)) \<longrightarrow>
        log \<noteq> [] \<and>
        (\<forall>rest. Scan ac (take (snd (snd (last log))) text @ rest) (logged m) (s, [])
           = Returned (Some err, (s', log)))"
    by (elim exE conjE)
  have ac: "the (compile ascending ?ps) = ac" using c by simp
  have v: "map call_of (select (map norm ?ps) ?t {} (spec_cands (map norm ?ps) ?t)) = [(2, 0, 4), (1, 0, 4)]"
    by code_simp
  have calls: "scan_calls ac ?t = [(2, 0, 4), (1, 0, 4)]"
    using Search_eval(2) [OF key_order_ascending ne v] unfolding ac .
  have "Scan ac ?t (logged ?m) ((), []) = Returned (deliver (logged ?m) (scan_calls ac ?t) ((), []))"
    by (rule a [rule_format])
  then have s: "Scan ac ?t (logged ?m) ((), []) = Returned (Some ''stop'', ((), [(2, 0, 4)]))"
    unfolding calls by (simp add: logged_def)
  have tk: "take 4 ?t = bytes ''ushe''" by (simp add: bytes_def)
  from b [rule_format, OF s] have "\<forall>rest. Scan ac (bytes ''ushe'' @ rest) (logged ?m) ((), [])
        = Returned (Some ''stop'', ((), [(2, 0, 4)]))"
    using tk by simp
  then show ?thesis
    using key_order_ascending c calls s by (intro conjI exI [of _ ac]) simp_all
qed

text \<open>
  C7: \<^verbatim>\<open>AddPattern\<close> returns a nil error whatever the matcher and the pattern; and
  patterns added after \<^verbatim>\<open>Build\<close> leave the translation, transition and output tables
  as they are and change the result of no later \<^verbatim>\<open>Search\<close> or \<^verbatim>\<open>Scan\<close>.
\<close>

theorem C7_add_pattern_after_build:
  assumes "key_order ord"
  shows "(\<forall>ac0 p0. fst (AddPattern ac0 p0) = None) \<and>
     (\<exists>ac. compile ord ps = Some ac \<and>
        (\<forall>qs. translateTable (add_patterns ac qs) = translateTable ac \<and>
              alphabetSize (add_patterns ac qs) = alphabetSize ac \<and>
              stateTable (add_patterns ac qs) = stateTable ac \<and>
              outputTable (add_patterns ac qs) = outputTable ac \<and>
              (\<forall>text. Search (add_patterns ac qs) text = Search ac text) \<and>
              (\<forall>text m s. Scan (add_patterns ac qs) text m (s :: 's) = Scan ac text m s)))"
proof -
  from compile_ok [OF assms, of ps] obtain ac where c: "compile ord ps = Some ac"
    and sr: "searchable ac"
    by blast
  have "Search (add_patterns ac qs) text = Search ac text"
    and "Scan (add_patterns ac qs) text m s = Scan ac text m s"
    for qs "text" m and s :: 's
    using add_patterns_events [OF sr, of qs "text"]
    by (simp_all add: Search_events Scan_events sr)
  then show ?thesis
    using c by (auto simp: AddPattern_fields add_patterns_tables)
qed

theorem C7_add_pattern_after_build_witness:
  "key_order ascending \<and>
   fst (AddPattern NewACKS (mkPat ''he'' 1 0)) = None \<and>
   (\<exists>ac. compile ascending [mkPat ''he'' 1 0] = Some ac \<and>
      Search ac (bytes ''ushers'') = Returned (Some [1], None) \<and>
      Search (add_patterns ac [mkPat ''she'' 2 0]) (bytes ''ushers'') = Returned (Some [1], None) \<and>
      stateTable (add_patterns ac [mkPat ''she'' 2 0]) = stateTable ac \<and>
      outputTable (add_patterns ac [mkPat ''she'' 2 0]) = outputTable ac)"
proof -
  let ?ps = "[mkPat ''he'' 1 0]"
  let ?qs = "[mkPat ''she'' 2 0]"
  let ?t = "bytes ''ushers''"
  have ne: "\<forall>p\<in>set ?ps. Content p \<noteq> []"
    by (simp add: mkPat_def bytes_def)
  note inst = C7_add_pattern_after_build [OF key_order_ascending, of ?ps, where ?'s = unit]
  from inst [THEN conjunct2] obtain ac
    where c: "compile ascending ?ps = Some ac"
      and all: "\<forall>qs. translateTable (add_patterns ac qs) = translateTable ac \<and>
              alphabetSize (add_patterns ac qs) = alphabetSize ac \<and>
              stateTable (add_patterns ac qs) = stateTable ac \<and>
              outputTable (add_patterns ac qs) = outputTable ac \<and>
              (\<forall>text. Search (add_patterns ac qs) text = Search ac text) \<and>
              (\<forall>text m s. Scan (add_patterns ac qs) text m (s :: unit) = Scan ac text m s)"
    by (elim exE conjE)
  have ac: "the (compile ascending ?ps) = ac" using c by simp
  have v: "map call_of (select (map norm ?ps) ?t {} (spec_cands (map norm ?ps) ?t)) = [(1, 0, 4)]"
    by code_simp
  have s: "Search ac ?t = Returned (Some [1], None)"
    using Search_eval(1) [OF key_order_ascending ne v] unfolding ac by simp
  note q = all [rule_format, of ?qs]
  have s2: "Search (add_patterns ac ?qs) ?t = Returned (Some [1], None)"
    using q s by simp
  show ?thesis
    using key_order_ascending inst [THEN conjunct1, rule_format, of NewACKS "mkPat ''he'' 1 0"] c s s2 q
    by (intro conjI exI [of _ ac]) simp_all
qed

lemma filter_take_length: "length (filter P (take n xs)) \<le> length (filter P xs)"
proof -
  have "length (filter P xs) = length (filter P (take n xs)) + length (filter P (drop n xs))"
    by (metis append_take_drop_id filter_append length_append)
  then show ?thesis by simp
qed

lemma events_once:
  assumes ok: "automaton_ok (map norm ps) lab n ac" and pa: "patterns ac = map norm ps"
    and sm: "\<forall>k<length ps. ID (ps ! k) = x \<longrightarrow> Flags (ps ! k) AND SingleMatch > 0"
  shows "length (filter (\<lambda>ev. ID (snd ev) = x) (events ac text)) \<le> 1"
proof -
  have "\<forall>(i, k)\<in>set (cands_from ac text 0). ID (patterns ac ! k) = x \<longrightarrow>
      Flags (patterns ac ! k) AND SingleMatch > 0"
  proof (clarify)
    fix i k assume c: "(i, k) \<in> set (cands_from ac text 0)" and "x = ID (patterns ac ! k)"
    from automaton_cands_sound [OF ok c] have "k < length ps" by simp
    then show "Flags (patterns ac ! k) AND SingleMatch > 0"
      using sm \<open>x = ID (patterns ac ! k)\<close> pa by simp
  qed
  from select_once [OF this, of "text" "{}"] show ?thesis
    unfolding events_def by simp
qed

lemma events_absent:
  assumes ok: "automaton_ok (map norm ps) lab n ac" and pa: "patterns ac = map norm ps"
    and ab: "\<forall>k i. k < length ps \<and> ID (ps ! k) = x \<longrightarrow> \<not> accepts (ps ! k) text i"
  shows "filter (\<lambda>ev. ID (snd ev) = x) (events ac text) = []"
proof -
  have "ID (snd ev) \<noteq> x" if "ev \<in> set (events ac text)" for ev
  proof -
    obtain pos p where ev: "ev = (pos, p)" by (cases ev)
    from events_sound [OF ok pa that [unfolded ev]] obtain i k
      where "k < length ps" "p = norm (ps ! k)" "accepts (ps ! k) text i"
      by blast
    then show ?thesis
      unfolding ev using ab by auto
  qed
  then show ?thesis by (simp add: filter_empty_conv)
qed

lemma Scan_log_filter:
  assumes sr: "searchable ac"
    and run: "Scan ac text (logged m) (s, []) = Returned (err, (s', log))"
  shows "length (filter (\<lambda>c. fst c = x) log) \<le> length (filter (\<lambda>ev. ID (snd ev) = x) (events ac text))"
proof -
  have "deliver (logged m) (map call_of (events ac text)) (s, []) = (err, (s', log))"
    using run unfolding Scan_events [OF sr] by simp
  from deliver_logged [OF this] obtain j where log: "log = take j (map call_of (events ac text))"
    by auto
  have "filter (\<lambda>c. fst c = x) (map call_of (events ac text))
      = map call_of (filter (\<lambda>ev. ID (snd ev) = x) (events ac text))"
    by (simp add: filter_map o_def call_of_def)
  then have "length (filter (\<lambda>c. fst c = x) (map call_of (events ac text)))
      = length (filter (\<lambda>ev. ID (snd ev) = x) (events ac text))"
    by simp
  then show ?thesis
    unfolding log using filter_take_length [of "\<lambda>c. fst c = x" j "map call_of (events ac text)"]
    by simp
qed

text \<open>
  C3 (amended): for a pattern with the SingleMatch (report once) flag such that every
  pattern registered under the same id carries the flag too, one \<^verbatim>\<open>Search\<close> lists the
  id at most once and one \<^verbatim>\<open>Scan\<close>, with whatever handler, calls the handler at most
  once with the id; and when no pattern registered under the id occurs in the text in
  the way its flags accept, the id is not listed and the handler is not called with it.
\<close>

theorem C3_report_once:
  assumes "key_order ord" and "k < length ps" and "Flags (ps ! k) AND SingleMatch > 0"
    and "\<forall>k'<length ps. ID (ps ! k') = ID (ps ! k) \<longrightarrow> Flags (ps ! k') AND SingleMatch > 0"
  shows "\<exists>ac. compile ord ps = Some ac \<and>
     (\<forall>text. \<exists>ids. Search ac text = Returned (Some ids, None) \<and>
        count_list ids (ID (ps ! k)) \<le> 1 \<and>
        (\<forall>m s err s' log. Scan ac text (logged m) ((s :: 's), []) = Returned (err, (s', log)) \<longrightarrow>
           length (filter (\<lambda>c. fst c = ID (ps ! k)) log) \<le> 1) \<and>
        ((\<forall>k' i. k' < length ps \<and> ID (ps ! k') = ID (ps ! k) \<longrightarrow> \<not> accepts (ps ! k') text i) \<longrightarrow>
           count_list ids (ID (ps ! k)) = 0 \<and>
           (\<forall>m s err s' log. Scan ac text (logged m) ((s :: 's), []) = Returned (err, (s', log)) \<longrightarrow>
              filter (\<lambda>c. fst c = ID (ps ! k)) log = [])))"
proof -
  from compile_ok [OF assms(1), of ps] obtain ac lab n where c: "compile ord ps = Some ac"
    and pa: "patterns ac = map norm ps"
    and ok: "automaton_ok (map norm ps) lab n ac" and sr: "searchable ac"
    by blast
  let ?x = "ID (ps ! k)"
  have main: "\<exists>ids. Search ac text = Returned (Some ids, None) \<and>
        count_list ids ?x \<le> 1 \<and>
        (\<forall>m s err s' log. Scan ac text (logged m) ((s :: 's), []) = Returned (err, (s', log)) \<longrightarrow>
           length (filter (\<lambda>c. fst c = ?x) log) \<le> 1) \<and>
        ((\<forall>k' i. k' < length ps \<and> ID (ps ! k') = ?x \<longrightarrow> \<not> accepts (ps ! k') text i) \<longrightarrow>
           count_list ids ?x = 0 \<and>
           (\<forall>m s err s' log. Scan ac text (logged m) ((s :: 's), []) = Returned (err, (s', log)) \<longrightarrow>
              filter (\<lambda>c. fst c = ?x) log = []))" for "text"
  proof -
    let ?evs = "filter (\<lambda>ev. ID (snd ev) = ?x) (events ac text)"
    let ?ids = "map (\<lambda>ev. ID (snd ev)) (events ac text)"
    have cnt: "count_list ?ids ?x = length ?evs"
      by (simp add: count_list_map)
    have once: "length ?evs \<le> 1"
      by (rule events_once [OF ok pa assms(4)])
    have s1: "count_list ?ids ?x \<le> 1" using cnt once by simp
    have s2: "length (filter (\<lambda>c. fst c = ?x) log) \<le> 1"
      if "Scan ac text (logged m) (s, []) = Returned (err, (s', log))"
      for m err s' log and s :: 's
      using Scan_log_filter [OF sr that, of ?x] once by simp
    have s3: "count_list ?ids ?x = 0"
      if "\<forall>k' i. k' < length ps \<and> ID (ps ! k') = ?x \<longrightarrow> \<not> accepts (ps ! k') text i"
      using events_absent [OF ok pa that] cnt by simp
    have s4: "filter (\<lambda>c. fst c = ?x) log = []"
      if "\<forall>k' i. k' < length ps \<and> ID (ps ! k') = ?x \<longrightarrow> \<not> accepts (ps ! k') text i"
        and "Scan ac text (logged m) (s, []) = Returned (err, (s', log))"
      for m err s' log and s :: 's
      using Scan_log_filter [OF sr that(2), of ?x] events_absent [OF ok pa that(1)] by simp
    show ?thesis
      unfolding Search_events [OF sr]
      by (intro exI [of _ ?ids] conjI refl s1 allI impI; (rule s2 s3 s4; assumption)?)
  qed
  show ?thesis
    by (rule exI [of _ ac], rule conjI [OF c], rule allI, rule main)
qed

lemma marks_ids:
  "x \<in> marks ps seen cs \<Longrightarrow> x \<in> seen \<or> (\<exists>c\<in>set cs. ID (ps ! snd c) = x)"
proof (induction cs arbitrary: seen)
  case Nil
  then show ?case by simp
next
  case (Cons c cs)
  obtain i k where c: "c = (i, k)" by (cases c)
  from Cons.prems
  have "x \<in> marks ps (if Flags (ps ! k) AND SingleMatch > 0 then insert (ID (ps ! k)) seen else seen) cs"
    unfolding c by simp
  from Cons.IH [OF this] show ?case
    unfolding c by (auto split: if_splits)
qed

lemma select_first_rejected:
  assumes a: "\<forall>c\<in>set a. ID (ps ! snd c) \<noteq> x" and idk: "ID (ps ! k) = x"
    and sm: "Flags (ps ! k) AND SingleMatch > 0" and cl: "Flags (ps ! k) AND Caseless = 0"
    and ne: "\<not> exact_at (Content (ps ! k)) text j"
    and b: "\<forall>(i, k')\<in>set b. ID (ps ! k') = x \<longrightarrow> Flags (ps ! k') AND SingleMatch > 0"
  shows "filter (\<lambda>ev. ID (snd ev) = x) (select ps text {} (a @ (j, k) # b)) = []"
proof -
  let ?seen = "marks ps {} a"
  have ns: "x \<notin> ?seen"
    using marks_ids [of x ps "{}" a] a by auto
  have "ID (snd ev) \<noteq> x" if "ev \<in> set (select ps text {} a)" for ev
  proof -
    obtain pos p where ev: "ev = (pos, p)" by (cases ev)
    from select_sound [OF that [unfolded ev]] obtain i k' where "(i, k') \<in> set a" "p = ps ! k'"
      by blast
    then show ?thesis unfolding ev using a by auto
  qed
  then have 1: "filter (\<lambda>ev. ID (snd ev) = x) (select ps text {} a) = []"
    by (simp add: filter_empty_conv)
  have 2: "select ps text ?seen ((j, k) # b) = select ps text (insert x ?seen) b"
    using sm cl ne idk ns by (simp add: Let_def)
  have "length (filter (\<lambda>ev. ID (snd ev) = x) (select ps text (insert x ?seen) b)) \<le> 0"
    using select_once [OF b, of "text" "insert x ?seen"] by simp
  then have 3: "filter (\<lambda>ev. ID (snd ev) = x) (select ps text (insert x ?seen) b) = []"
    by simp
  show ?thesis
    unfolding select_append filter_append 1 2 3 by simp
qed

lemma first_candidate:
  assumes srt: "sorted (map fst cs)" and mem: "(j, k) \<in> set cs"
    and only: "\<forall>c\<in>set cs. P c \<longrightarrow> snd c = k \<and> j \<le> fst c" and pk: "P (j, k)"
  shows "\<exists>a b. cs = a @ (j, k) # b \<and> (\<forall>c\<in>set a. \<not> P c)"
proof -
  have "\<exists>c\<in>set cs. P c" using mem pk by blast
  from split_list_first_prop [OF this] obtain a c b
    where cs: "cs = a @ c # b" and pc: "P c" and a: "\<forall>y\<in>set a. \<not> P y"
    by blast
  have ck: "snd c = k" and jc: "j \<le> fst c"
    using only pc cs by auto
  have "fst c \<le> j"
  proof -
    from mem a pk have "(j, k) = c \<or> (j, k) \<in> set b"
      unfolding cs by auto
    then show ?thesis
    proof
      assume "(j, k) = c"
      then show ?thesis by auto
    next
      assume "(j, k) \<in> set b"
      then have "j \<in> set (map fst b)" by force
      then show ?thesis
        using srt unfolding cs by (auto simp: sorted_append)
    qed
  qed
  then have "c = (j, k)" using ck jc by (cases c) simp
  then show ?thesis using cs a by blast
qed

theorem C3_report_once_witness:
  "key_order ascending \<and> 0 < length [mkPat ''foo'' 100 SingleMatch] \<and>
   Flags ([mkPat ''foo'' 100 SingleMatch] ! 0) AND SingleMatch > 0 \<and>
   (\<exists>ac. compile ascending [mkPat ''foo'' 100 SingleMatch] = Some ac \<and>
      Search ac (bytes ''foofoo'') = Returned (Some [100], None) \<and>
      Search ac (bytes ''bar'') = Returned (Some [], None) \<and>
      (\<forall>text. \<exists>ids. Search ac text = Returned (Some ids, None) \<and>
         count_list ids (ID ([mkPat ''foo'' 100 SingleMatch] ! 0)) \<le> 1 \<and>
         (\<forall>m s err s' log. Scan ac text (logged m) ((s :: unit), []) = Returned (err, (s', log)) \<longrightarrow>
            length (filter (\<lambda>c. fst c = ID ([mkPat ''foo'' 100 SingleMatch] ! 0)) log) \<le> 1) \<and>
         ((\<forall>k' i. k' < length [mkPat ''foo'' 100 SingleMatch] \<and>
               ID ([mkPat ''foo'' 100 SingleMatch] ! k') = ID ([mkPat ''foo'' 100 SingleMatch] ! 0) \<longrightarrow>
               \<not> accepts ([mkPat ''foo'' 100 SingleMatch] ! k') text i) \<longrightarrow>
            count_list ids (ID ([mkPat ''foo'' 100 SingleMatch] ! 0)) = 0 \<and>
            (\<forall>m s err s' log. Scan ac text (logged m) ((s :: unit), []) = Returned (err, (s', log)) \<longrightarrow>
               filter (\<lambda>c. fst c = ID ([mkPat ''foo'' 100 SingleMatch] ! 0)) log = []))))"
proof -
  let ?ps = "[mkPat ''foo'' 100 SingleMatch]"
  have h2: "0 < length ?ps" by simp
  have h3: "Flags (?ps ! 0) AND SingleMatch > 0"
    by (simp add: mkPat_def SingleMatch_def)
  have h4: "\<forall>k'<length ?ps. ID (?ps ! k') = ID (?ps ! 0) \<longrightarrow> Flags (?ps ! k') AND SingleMatch > 0"
    by (simp add: mkPat_def SingleMatch_def)
  have ne: "\<forall>p\<in>set ?ps. Content p \<noteq> []"
    by (simp add: mkPat_def bytes_def)
  from C3_report_once [OF key_order_ascending h2 h3 h4, where ?'s = unit] obtain ac
    where c: "compile ascending ?ps = Some ac"
      and all: "\<forall>text. \<exists>ids. Search ac text = Returned (Some ids, None) \<and>
         count_list ids (ID (?ps ! 0)) \<le> 1 \<and>
         (\<forall>m s err s' log. Scan ac text (logged m) ((s :: unit), []) = Returned (err, (s', log)) \<longrightarrow>
            length (filter (\<lambda>c. fst c = ID (?ps ! 0)) log) \<le> 1) \<and>
         ((\<forall>k' i. k' < length ?ps \<and> ID (?ps ! k') = ID (?ps ! 0) \<longrightarrow> \<not> accepts (?ps ! k') text i) \<longrightarrow>
            count_list ids (ID (?ps ! 0)) = 0 \<and>
            (\<forall>m s err s' log. Scan ac text (logged m) ((s :: unit), []) = Returned (err, (s', log)) \<longrightarrow>
               filter (\<lambda>c. fst c = ID (?ps ! 0)) log = []))"
    by (elim exE conjE)
  have ac: "the (compile ascending ?ps) = ac" using c by simp
  have v1: "map call_of (select (map norm ?ps) (bytes ''foofoo'') {}
      (spec_cands (map norm ?ps) (bytes ''foofoo''))) = [(100, 0, 3)]"
    by code_simp
  have v2: "map call_of (select (map norm ?ps) (bytes ''bar'') {}
      (spec_cands (map norm ?ps) (bytes ''bar''))) = []"
    by code_simp
  have s1: "Search ac (bytes ''foofoo'') = Returned (Some [100], None)"
    using Search_eval(1) [OF key_order_ascending ne v1] unfolding ac by simp
  have s2: "Search ac (bytes ''bar'') = Returned (Some [], None)"
    using Search_eval(1) [OF key_order_ascending ne v2] unfolding ac by simp
  show ?thesis
    by (rule conjI [OF key_order_ascending], rule conjI [OF h2], rule conjI [OF h3], rule exI,
        rule conjI [OF c conjI [OF s1 conjI [OF s2 all]]])
qed

theorem C3_report_once_counterexample:
  "Flags (mkPat ''a'' 1 SingleMatch) AND SingleMatch > 0 \<and>
   compile ascending [mkPat ''a'' 1 SingleMatch, mkPat ''b'' 1 0]
     = Some (the (compile ascending [mkPat ''a'' 1 SingleMatch, mkPat ''b'' 1 0])) \<and>
   Search (the (compile ascending [mkPat ''a'' 1 SingleMatch, mkPat ''b'' 1 0])) (bytes ''bb'')
     = Returned (Some [1, 1], None) \<and>
   scan_calls (the (compile ascending [mkPat ''a'' 1 SingleMatch, mkPat ''b'' 1 0])) (bytes ''bb'')
     = [(1, 0, 1), (1, 0, 2)]"
proof -
  let ?ps = "[mkPat ''a'' 1 SingleMatch, mkPat ''b'' 1 0]"
  have f: "Flags (mkPat ''a'' 1 SingleMatch) AND SingleMatch > 0"
    by (simp add: mkPat_def SingleMatch_def)
  have ne: "\<forall>p\<in>set ?ps. Content p \<noteq> []"
    by (simp add: mkPat_def bytes_def)
  have v: "map call_of (select (map norm ?ps) (bytes ''bb'') {}
      (spec_cands (map norm ?ps) (bytes ''bb''))) = [(1, 0, 1), (1, 0, 2)]"
    by code_simp
  have s: "Search (the (compile ascending ?ps)) (bytes ''bb'') = Returned (Some [1, 1], None)"
    using Search_eval(1) [OF key_order_ascending ne v] by simp
  note t = Search_eval(2) [OF key_order_ascending ne v]
  show ?thesis
    by (rule conjI [OF f conjI [OF compile_the [OF key_order_ascending] conjI [OF s t]]])
qed




lemma automaton_complete:
  assumes ok: "automaton_ok ps lab n ac" and co: "complete_out (words ps) n lab (outputTable ac)"
    and k: "k < length ps" and ne: "Content (ps ! k) \<noteq> []"
    and i: "i < length text" and f: "folded_at (Content (ps ! k)) text i"
  shows "(i, k) \<in> set (cands_from ac text 0)"
proof -
  let ?u = "map (symbol_of ps) (take (Suc i) text)"
  let ?s = "run ac (take (Suc i) text)"
  have lb: "labelled (words ps) n lab"
    using ok unfolding automaton_ok_def by (elim conjE)
  have kw: "k < length (words ps)" using k by (simp add: words_def)
  then obtain s' where s': "s' < n" "lab s' = words ps ! k"
    using lb unfolding labelled_def by blast
  have suf: "suffix (words ps ! k) ?u"
    using word_suffix_iff [OF k i] f by simp
  have r: "is_lsl lab n ?u ?s" by (rule automaton_run [OF ok])
  then have sn: "?s < n" by (simp add: is_lsl_def)
  have "suffix (lab s') (lab ?s)"
    using r s'(1) suf [folded s'(2)] unfolding is_lsl_def by blast
  then have "suffix (words ps ! k) (lab ?s)" using s'(2) by simp
  moreover have "words ps ! k \<noteq> []" using ne by (simp add: words_nth [OF k])
  ultimately have "k \<in> set (outputTable ac ! ?s)"
    using co sn kw unfolding complete_out_def by blast
  then show ?thesis
    using i unfolding cands_from_def by auto
qed

lemma cands_from_sorted: "sorted (map fst (cands_from ac text j))"
  unfolding cands_from_def by (rule sorted_concat_fst) simp





text \<open>
  C10: the dedup mark of a SingleMatch pattern is set when the automaton reports the
  pattern, before the bytes are compared. So for a pattern with SingleMatch and without
  Caseless whose id no other pattern has, on a text where the first index at which the
  content ends case-insensitively is not an exact occurrence, \<^verbatim>\<open>Search\<close> does not list
  the id and \<^verbatim>\<open>Scan\<close> never calls the handler with it, whatever follows in the text.
\<close>

theorem C10_mark_before_verification:
  assumes "key_order ord" and "k < length ps"
    and "Flags (ps ! k) AND SingleMatch > 0" and "Flags (ps ! k) AND Caseless = 0"
    and "\<forall>k'<length ps. ID (ps ! k') = ID (ps ! k) \<longrightarrow> k' = k"
    and "j < length text" and "folded_at (Content (ps ! k)) text j"
    and "\<not> exact_at (Content (ps ! k)) text j"
    and "\<forall>j'<j. \<not> folded_at (Content (ps ! k)) text j'"
  shows "\<exists>ac. compile ord ps = Some ac \<and>
     (\<exists>ids. Search ac text = Returned (Some ids, None) \<and> ID (ps ! k) \<notin> set ids) \<and>
     (\<forall>m s err s' log. Scan ac text (logged m) ((s :: 's), []) = Returned (err, (s', log)) \<longrightarrow>
        ID (ps ! k) \<notin> fst ` set log)"
proof -
  from compile_ok [OF assms(1), of ps] obtain ac lab n where c: "compile ord ps = Some ac"
    and pa: "patterns ac = map norm ps"
    and ok: "automaton_ok (map norm ps) lab n ac" and sr: "searchable ac"
    and co: "complete_out (words (map norm ps)) n lab (outputTable ac)"
    by blast
  let ?x = "ID (ps ! k)"
  let ?ps = "map norm ps"
  let ?cs = "cands_from ac text 0"
  let ?P = "\<lambda>c. ID (?ps ! snd c) = ?x"
  have ne: "Content (ps ! k) \<noteq> []"
  proof
    assume "Content (ps ! k) = []"
    then have "exact_at (Content (ps ! k)) text j" by (simp add: exact_at_def)
    with assms(8) show False by simp
  qed
  have mem: "(j, k) \<in> set ?cs"
    by (rule automaton_complete [OF ok co]) (use assms(2,6,7) ne in simp_all)
  have cand: "snd c = k \<and> j \<le> fst c" if "c \<in> set ?cs" "?P c" for c
  proof -
    obtain i k' where c': "c = (i, k')" by (cases c)
    note snd = automaton_cands_sound [OF ok that(1) [unfolded c']]
    have k': "k' < length ps" using snd by simp
    have f: "folded_at (Content (?ps ! k')) text i" using snd by (elim conjE)
    have "ID (ps ! k') = ?x" using that(2) k' unfolding c' by simp
    then have kk: "k' = k" using assms(5) k' by blast
    then have "folded_at (Content (ps ! k)) text i" using f assms(2) by simp
    then have "\<not> i < j" using assms(9) by blast
    then show ?thesis unfolding c' using kk by simp
  qed
  have pk: "?P (j, k)" using assms(2) by simp
  have only: "\<forall>c\<in>set ?cs. ?P c \<longrightarrow> snd c = k \<and> j \<le> fst c"
    using cand by blast
  from first_candidate [of ?cs j k ?P, OF cands_from_sorted mem only pk]
  obtain a b where split: "?cs = a @ (j, k) # b" and a: "\<forall>c\<in>set a. \<not> ?P c"
    by blast
  have bsm: "\<forall>(i, k')\<in>set b. ID (?ps ! k') = ?x \<longrightarrow> Flags (?ps ! k') AND SingleMatch > 0"
  proof (clarify)
    fix i k' assume "(i, k') \<in> set b" and "ID (?ps ! k') = ?x"
    then have "snd (i, k') = k" using cand [of "(i, k')"] split by simp
    then show "Flags (?ps ! k') AND SingleMatch > 0"
      using assms(2,3) by simp
  qed
  have none: "filter (\<lambda>ev. ID (snd ev) = ?x) (events ac text) = []"
    unfolding events_def pa split
    by (rule select_first_rejected [OF _ _ _ _ _ bsm]) (use a assms(2,3,4,8) in simp_all)
  have s1: "?x \<notin> set (map (\<lambda>ev. ID (snd ev)) (events ac text))"
    using none by (auto simp: filter_empty_conv)
  have s2: "?x \<notin> fst ` set log"
    if "Scan ac text (logged m) (s, []) = Returned (err, (s', log))"
    for m err s' log and s :: 's
  proof -
    from Scan_log_filter [OF sr that, of ?x] none
    have "filter (\<lambda>c. fst c = ?x) log = []" by simp
    then show ?thesis by (auto simp: filter_empty_conv)
  qed
  have "\<exists>ids. Search ac text = Returned (Some ids, None) \<and> ?x \<notin> set ids"
    unfolding Search_events [OF sr] using s1 by blast
  moreover have "\<forall>m s err s' log. Scan ac text (logged m) ((s :: 's), []) = Returned (err, (s', log)) \<longrightarrow>
        ?x \<notin> fst ` set log"
    using s2 by blast
  ultimately show ?thesis
    using c by blast
qed

theorem C10_mark_before_verification_witness:
  "key_order ascending \<and> 0 < length [mkPat ''foo'' 1 SingleMatch] \<and>
   Flags ([mkPat ''foo'' 1 SingleMatch] ! 0) AND SingleMatch > 0 \<and>
   Flags ([mkPat ''foo'' 1 SingleMatch] ! 0) AND Caseless = 0 \<and>
   2 < length (bytes ''FOOfoo'') \<and>
   folded_at (Content ([mkPat ''foo'' 1 SingleMatch] ! 0)) (bytes ''FOOfoo'') 2 \<and>
   \<not> exact_at (Content ([mkPat ''foo'' 1 SingleMatch] ! 0)) (bytes ''FOOfoo'') 2 \<and>
   \<not> folded_at (Content ([mkPat ''foo'' 1 SingleMatch] ! 0)) (bytes ''FOOfoo'') 0 \<and>
   \<not> folded_at (Content ([mkPat ''foo'' 1 SingleMatch] ! 0)) (bytes ''FOOfoo'') 1 \<and>
   exact_at (Content ([mkPat ''foo'' 1 SingleMatch] ! 0)) (bytes ''FOOfoo'') 5 \<and>
   (\<exists>ac. compile ascending [mkPat ''foo'' 1 SingleMatch] = Some ac \<and>
      Search ac (bytes ''FOOfoo'') = Returned (Some [], None) \<and>
      (\<exists>ids. Search ac (bytes ''FOOfoo'') = Returned (Some ids, None) \<and>
         ID ([mkPat ''foo'' 1 SingleMatch] ! 0) \<notin> set ids) \<and>
      (\<forall>m s err s' log.
         Scan ac (bytes ''FOOfoo'') (logged m) ((s :: unit), []) = Returned (err, (s', log)) \<longrightarrow>
         ID ([mkPat ''foo'' 1 SingleMatch] ! 0) \<notin> fst ` set log))"
proof -
  let ?ps = "[mkPat ''foo'' 1 SingleMatch]"
  let ?t = "bytes ''FOOfoo''"
  let ?c = "Content (?ps ! 0)"
  have h2: "0 < length ?ps" by simp
  have h3: "Flags (?ps ! 0) AND SingleMatch > 0" by (simp add: mkPat_def SingleMatch_def)
  have h4: "Flags (?ps ! 0) AND Caseless = 0" by (simp add: mkPat_def SingleMatch_def Caseless_def)
  have h5: "\<forall>k'<length ?ps. ID (?ps ! k') = ID (?ps ! 0) \<longrightarrow> k' = 0" by simp
  have h6: "2 < length ?t" by (simp add: bytes_def)
  have h7: "folded_at ?c ?t 2" by code_simp
  have h8: "\<not> exact_at ?c ?t 2" by code_simp
  have n0: "\<not> folded_at ?c ?t 0" by code_simp
  have n1: "\<not> folded_at ?c ?t 1" by code_simp
  have h9: "\<forall>j'<2. \<not> folded_at ?c ?t j'"
    using n0 n1 by (auto simp: less_2_cases_iff)
  have e5: "exact_at ?c ?t 5" by code_simp
  have ne: "\<forall>p\<in>set ?ps. Content p \<noteq> []" by (simp add: mkPat_def bytes_def)
  from C10_mark_before_verification [OF key_order_ascending h2 h3 h4 h5 h6 h7 h8 h9, where ?'s = unit]
  obtain ac where c: "compile ascending ?ps = Some ac"
    and ids: "\<exists>ids. Search ac ?t = Returned (Some ids, None) \<and> ID (?ps ! 0) \<notin> set ids"
    and logs: "\<forall>m s err s' log.
         Scan ac ?t (logged m) ((s :: unit), []) = Returned (err, (s', log)) \<longrightarrow>
         ID (?ps ! 0) \<notin> fst ` set log"
    by blast
  have ac: "the (compile ascending ?ps) = ac" using c by simp
  have v: "map call_of (select (map norm ?ps) ?t {} (spec_cands (map norm ?ps) ?t)) = []"
    by code_simp
  have s1: "Search ac ?t = Returned (Some [], None)"
    using Search_eval(1) [OF key_order_ascending ne v] unfolding ac by simp
  show ?thesis
    by (rule conjI [OF key_order_ascending], rule conjI [OF h2], rule conjI [OF h3],
        rule conjI [OF h4], rule conjI [OF h6], rule conjI [OF h7], rule conjI [OF h8],
        rule conjI [OF n0], rule conjI [OF n1], rule conjI [OF e5], rule exI,
        rule conjI [OF c conjI [OF s1 conjI [OF ids logs]]])
qed

end
